theory Spec2Isabelle
  imports Complex_Main "HOL-Library.Char_ord" "HOL-Library.List_Lexorder" "HOL-Library.Multiset"
begin

section \<open>Values and exceptions\<close>

text \<open>
  The generator of \<^verbatim>\<open>hogtyped/codegen.py\<close> works on what \<^verbatim>\<open>json.load\<close> returns:
  \<^verbatim>\<open>None\<close>, booleans, numbers, strings, lists and dicts with string keys. A dict is an
  association list in insertion order (Python dicts keep it); its keys are distinct.
  A number is its numeric value: Python's \<^verbatim>\<open>1\<close>, \<^verbatim>\<open>1.0\<close> compare equal and are both
  truthy, and nothing here does arithmetic. Strings are lists of 8-bit characters.
\<close>

datatype json =
    JNull
  | JBool bool
  | JNum rat
  | JStr string
  | JArr "json list"
  | JObj "(string \<times> json) list"

text \<open>
  One constructor per exception class the modelled code can raise. \<open>Unrepresentable\<close> is
  not a Python exception: it marks the one place (\<^verbatim>\<open>dict.update\<close> with a list of pairs
  whose key is a number, a boolean or \<^verbatim>\<open>None\<close>) where Python goes on with a dict
  that has a key which is not a string and \<^typ>\<open>json\<close> cannot hold.
  \<open>ReadError\<close> is whatever \<^verbatim>\<open>open\<close> or \<^verbatim>\<open>json.load\<close> raises on a file
  (\<^verbatim>\<open>FileNotFoundError\<close>, \<^verbatim>\<open>JSONDecodeError\<close>, ...).
  \<open>ValueError_validation\<close> is the \<^verbatim>\<open>ValueError(error_msg)\<close> of the generated
  \<^verbatim>\<open>capture\<close>, with the two parts its message is formatted from.
\<close>

datatype validation_error =
    Missing_required_field json
  | Invalid_enum_value string json

datatype error =
    AttributeError
  | TypeError
  | ValueError
  | KeyError
  | ReadError
  | RecursionError
  | Unrepresentable
  | ValueError_validation string "validation_error list"

text \<open>\<^verbatim>\<open>not schema\<close>: the falsy values are \<^verbatim>\<open>None\<close>, \<^verbatim>\<open>False\<close>, zero and the empty
  string, list and dict.\<close>

fun truthy :: "json \<Rightarrow> bool" where
  "truthy JNull = False"
| "truthy (JBool b) = b"
| "truthy (JNum n) = (n \<noteq> 0)"
| "truthy (JStr s) = (s \<noteq> [])"
| "truthy (JArr xs) = (xs \<noteq> [])"
| "truthy (JObj kvs) = (kvs \<noteq> [])"

text \<open>Python's \<^verbatim>\<open>==\<close>: \<^verbatim>\<open>True == 1\<close>, lists compare element by element, dicts
  compare as maps, whatever the insertion order.\<close>

fun py_eq :: "json \<Rightarrow> json \<Rightarrow> bool"
  and py_eq_list :: "json list \<Rightarrow> json list \<Rightarrow> bool"
  and py_eq_items :: "(string \<times> json) list \<Rightarrow> (string \<times> json) list \<Rightarrow> bool" where
  "py_eq JNull b = (b = JNull)"
| "py_eq (JBool x) b =
     (case b of JBool y \<Rightarrow> x = y | JNum n \<Rightarrow> n = (if x then 1 else 0) | _ \<Rightarrow> False)"
| "py_eq (JNum m) b =
     (case b of JBool y \<Rightarrow> m = (if y then 1 else 0) | JNum n \<Rightarrow> m = n | _ \<Rightarrow> False)"
| "py_eq (JStr s) b = (b = JStr s)"
| "py_eq (JArr xs) b = (case b of JArr ys \<Rightarrow> py_eq_list xs ys | _ \<Rightarrow> False)"
| "py_eq (JObj kvs) b =
     (case b of JObj kws \<Rightarrow> length kvs = length kws \<and> py_eq_items kvs kws | _ \<Rightarrow> False)"
| "py_eq_list [] ys = (ys = [])"
| "py_eq_list (x # xs) ys = (case ys of [] \<Rightarrow> False | y # ys' \<Rightarrow> py_eq x y \<and> py_eq_list xs ys')"
| "py_eq_items [] kws = True"
| "py_eq_items ((k, v) # kvs) kws =
     (case map_of kws k of None \<Rightarrow> False | Some w \<Rightarrow> py_eq v w \<and> py_eq_items kvs kws)"

text \<open>Lists and dicts cannot be hashed: as a dict key or a set element they raise
  \<^verbatim>\<open>TypeError\<close>.\<close>

fun hashable :: "json \<Rightarrow> bool" where
  "hashable (JArr xs) = False"
| "hashable (JObj kvs) = False"
| "hashable v = True"

text \<open>\<^verbatim>\<open>t in s\<close> on two strings: \<open>t\<close> occurs in \<open>s\<close> as a contiguous piece.\<close>

fun is_infix :: "string \<Rightarrow> string \<Rightarrow> bool" where
  "is_infix t [] = (t = [])"
| "is_infix t (c # cs) = (take (length t) (c # cs) = t \<or> is_infix t cs)"

text \<open>\<^verbatim>\<open>x in container\<close>.\<close>

fun py_contains :: "json \<Rightarrow> json \<Rightarrow> error + bool" where
  "py_contains (JObj kvs) x =
     (if hashable x then Inr (case x of JStr k \<Rightarrow> map_of kvs k \<noteq> None | _ \<Rightarrow> False)
      else Inl TypeError)"
| "py_contains (JArr xs) x = Inr (list_ex (py_eq x) xs)"
| "py_contains (JStr s) x = (case x of JStr t \<Rightarrow> Inr (is_infix t s) | _ \<Rightarrow> Inl TypeError)"
| "py_contains c x = Inl TypeError"

text \<open>\<^verbatim>\<open>obj[key]\<close> with a string key: only a dict takes one.\<close>

fun py_getitem :: "json \<Rightarrow> string \<Rightarrow> error + json" where
  "py_getitem (JObj kvs) k = (case map_of kvs k of None \<Rightarrow> Inl KeyError | Some v \<Rightarrow> Inr v)"
| "py_getitem c k = Inl TypeError"

text \<open>\<^verbatim>\<open>obj.get(key, default)\<close>: only a dict has the method.\<close>

fun py_get :: "json \<Rightarrow> string \<Rightarrow> json \<Rightarrow> error + json" where
  "py_get (JObj kvs) k d = (case map_of kvs k of None \<Rightarrow> Inr d | Some v \<Rightarrow> Inr v)"
| "py_get c k d = Inl AttributeError"

text \<open>\<^verbatim>\<open>for x in v\<close>: a list gives its items, a string its characters, a dict its
  keys; nothing else can be iterated.\<close>

fun py_iter :: "json \<Rightarrow> error + json list" where
  "py_iter (JArr xs) = Inr xs"
| "py_iter (JStr s) = Inr (map (\<lambda>c. JStr [c]) s)"
| "py_iter (JObj kvs) = Inr (map (\<lambda>kv. JStr (fst kv)) kvs)"
| "py_iter v = Inl TypeError"

text \<open>\<^verbatim>\<open>d[k] = v\<close>: an existing key keeps its place, a new one goes last.\<close>

fun dict_set :: "(string \<times> json) list \<Rightarrow> string \<Rightarrow> json \<Rightarrow> (string \<times> json) list" where
  "dict_set [] k v = [(k, v)]"
| "dict_set ((k', v') # d) k v = (if k' = k then (k', v) # d else (k', v') # dict_set d k v)"

text \<open>\<^verbatim>\<open>s.split(sep)\<close> with a one-character separator: never empty, \<^verbatim>\<open>''.split('/')\<close>
  is \<^verbatim>\<open>['']\<close>.\<close>

fun py_split :: "char \<Rightarrow> string \<Rightarrow> string list" where
  "py_split sep [] = [[]]"
| "py_split sep (c # cs) =
     (case py_split sep cs of
        [] \<Rightarrow> [[c]]
      | w # ws \<Rightarrow> if c = sep then [] # w # ws else (c # w) # ws)"

definition startswith :: "string \<Rightarrow> string \<Rightarrow> bool" where
  "startswith s p = (take (length p) s = p)"

section \<open>What the generator takes from outside\<close>

text \<open>
  \<open>read_json p\<close> is \<^verbatim>\<open>json.load(open(p))\<close>, \<open>None\<close> when the file cannot be opened or
  parsed. \<open>sibling_path p r\<close> is \<^verbatim>\<open>str(Path(p).parent / r)\<close>. \<open>set_to_list xs\<close> is
  \<^verbatim>\<open>list(set(xs))\<close>, whose order Python does not fix. \<open>capitalize\<close> is
  \<^verbatim>\<open>str.capitalize\<close>.
\<close>

record env =
  read_json :: "string \<Rightarrow> json option"
  sibling_path :: "string \<Rightarrow> string \<Rightarrow> string"
  set_to_list :: "json list \<Rightarrow> json list"
  capitalize :: "string \<Rightarrow> string"

section \<open>The reference resolver\<close>

text \<open>The walk of an internal reference (lines 86 to 90) stops at the first
  \<^verbatim>\<open>None\<close>; \<^verbatim>\<open>.get\<close> on anything but a dict raises.\<close>

fun walk_internal :: "json \<Rightarrow> string list \<Rightarrow> error + json" where
  "walk_internal resolved [] = Inr resolved"
| "walk_internal resolved (part # parts) =
     (case py_get resolved part JNull of
        Inl e \<Rightarrow> Inl e
      | Inr r \<Rightarrow> if r = JNull then Inr JNull else walk_internal r parts)"

text \<open>The walk of an external reference (lines 103 to 105) has no such test.\<close>

fun walk_external :: "json \<Rightarrow> string list \<Rightarrow> error + json" where
  "walk_external resolved [] = Inr resolved"
| "walk_external resolved (part # parts) =
     (case py_get resolved part JNull of
        Inl e \<Rightarrow> Inl e
      | Inr r \<Rightarrow> walk_external r parts)"

text \<open>A list comprehension over results: the first exception ends it.\<close>

fun map_result :: "('a \<Rightarrow> error + 'b) \<Rightarrow> 'a list \<Rightarrow> error + 'b list" where
  "map_result f [] = Inr []"
| "map_result f (x # xs) =
     (case f x of
        Inl e \<Rightarrow> Inl e
      | Inr y \<Rightarrow> (case map_result f xs of Inl e \<Rightarrow> Inl e | Inr ys \<Rightarrow> Inr (y # ys)))"

text \<open>The dict comprehension of line 129.\<close>

fun map_values :: "(json \<Rightarrow> error + json) \<Rightarrow> (string \<times> json) list \<Rightarrow> error + (string \<times> json) list" where
  "map_values f [] = Inr []"
| "map_values f ((k, v) # kvs) =
     (case f v of
        Inl e \<Rightarrow> Inl e
      | Inr w \<Rightarrow> (case map_values f kvs of Inl e \<Rightarrow> Inl e | Inr kws \<Rightarrow> Inr ((k, w) # kws)))"

text \<open>
  \<^verbatim>\<open>merged\<close> of lines 112 to 122: its \<^verbatim>\<open>properties\<close>, its \<^verbatim>\<open>required\<close> and, once
  set, its \<^verbatim>\<open>additionalProperties\<close>.
\<close>

record merged =
  m_properties :: "(string \<times> json) list"
  m_required :: "json list"
  m_additional :: "json option"

text \<open>
  \<^verbatim>\<open>dict.update(other)\<close>: a dict gives its items; any other argument is read as a
  sequence of two-element sequences, the first element being the key.
\<close>

fun update_pair :: "json \<Rightarrow> error + (string \<times> json)" where
  "update_pair (JArr [k, v]) =
     (case k of JStr s \<Rightarrow> Inr (s, v)
      | JArr xs \<Rightarrow> Inl TypeError
      | JObj kvs \<Rightarrow> Inl TypeError
      | _ \<Rightarrow> Inl Unrepresentable)"
| "update_pair (JArr xs) = Inl ValueError"
| "update_pair (JStr [a, b]) = Inr ([a], JStr [b])"
| "update_pair (JStr s) = Inl ValueError"
| "update_pair (JObj [(k1, v1), (k2, v2)]) = Inr (k1, JStr k2)"
| "update_pair (JObj kvs) = Inl ValueError"
| "update_pair v = Inl TypeError"

fun update_items :: "(string \<times> json) list \<Rightarrow> json list \<Rightarrow> error + (string \<times> json) list" where
  "update_items d [] = Inr d"
| "update_items d (x # xs) =
     (case update_pair x of Inl e \<Rightarrow> Inl e | Inr (k, v) \<Rightarrow> update_items (dict_set d k v) xs)"

fun dict_update :: "(string \<times> json) list \<Rightarrow> json \<Rightarrow> error + (string \<times> json) list" where
  "dict_update d (JObj kvs) = Inr (fold (\<lambda>kv acc. dict_set acc (fst kv) (snd kv)) kvs d)"
| "dict_update d (JArr xs) = update_items d xs"
| "dict_update d (JStr s) = (if s = [] then Inr d else Inl ValueError)"
| "dict_update d v = Inl TypeError"

text \<open>Lines 117 to 122, for one resolved member of \<^verbatim>\<open>allOf\<close>.\<close>

fun merge_member :: "json \<Rightarrow> merged \<Rightarrow> error + merged" where
  "merge_member (JObj kvs) m =
     (case dict_update (m_properties m)
             (case map_of kvs ''properties'' of None \<Rightarrow> JObj [] | Some p \<Rightarrow> p) of
        Inl e \<Rightarrow> Inl e
      | Inr props \<Rightarrow>
          (case py_iter (case map_of kvs ''required'' of None \<Rightarrow> JArr [] | Some r \<Rightarrow> r) of
             Inl e \<Rightarrow> Inl e
           | Inr req \<Rightarrow>
               Inr \<lparr>m_properties = props,
                    m_required = m_required m @ req,
                    m_additional =
                      (case map_of kvs ''additionalProperties'' of
                         None \<Rightarrow> m_additional m
                       | Some a \<Rightarrow> Some a)\<rparr>))"
| "merge_member v m = Inr m"

text \<open>The loop of lines 114 to 122: resolve a member, merge it, go on.\<close>

fun allOf_loop :: "(json \<Rightarrow> error + json) \<Rightarrow> json list \<Rightarrow> merged \<Rightarrow> error + merged" where
  "allOf_loop f [] m = Inr m"
| "allOf_loop f (sub_schema # rest) m =
     (case f sub_schema of
        Inl e \<Rightarrow> Inl e
      | Inr resolved \<Rightarrow>
          (case merge_member resolved m of
             Inl e \<Rightarrow> Inl e
           | Inr m' \<Rightarrow> allOf_loop f rest m'))"

text \<open>Lines 124 and 125: the set is built first, and raises on an element that cannot be
  hashed.\<close>

definition finish_merged :: "env \<Rightarrow> merged \<Rightarrow> error + json" where
  "finish_merged E m =
     (if list_all hashable (m_required m) then
        Inr (JObj ([(''type'', JStr ''object''),
                    (''properties'', JObj (m_properties m)),
                    (''required'', JArr (set_to_list E (m_required m)))]
                   @ (case m_additional m of
                        None \<Rightarrow> []
                      | Some a \<Rightarrow> [(''additionalProperties'', a)])))
      else Inl TypeError)"

lemma map_result_cong [fundef_cong]:
  "xs = ys \<Longrightarrow> (\<And>x. x \<in> set ys \<Longrightarrow> f x = g x) \<Longrightarrow> map_result f xs = map_result g ys"
  by (induction ys arbitrary: xs) (auto split: sum.splits)

lemma map_values_cong_aux:
  "(\<And>k v. (k, v) \<in> set kws \<Longrightarrow> f v = g v) \<Longrightarrow> map_values f kws = map_values g kws"
proof (induction kws)
  case Nil
  show ?case by simp
next
  case (Cons a kws)
  obtain k v where a: "a = (k, v)" by (cases a)
  have fv: "f v = g v" using Cons.prems [of k v] by (simp add: a)
  have "map_values f kws = map_values g kws"
  proof (rule Cons.IH)
    fix k' v'
    assume "(k', v') \<in> set kws"
    then show "f v' = g v'" using Cons.prems [of k' v'] by simp
  qed
  with fv show ?case by (auto simp: a split: sum.splits)
qed

lemma map_values_cong [fundef_cong]:
  "kvs = kws \<Longrightarrow> (\<And>k v. (k, v) \<in> set kws \<Longrightarrow> f v = g v) \<Longrightarrow> map_values f kvs = map_values g kws"
  using map_values_cong_aux by blast

lemma allOf_loop_cong [fundef_cong]:
  "xs = ys \<Longrightarrow> m = m' \<Longrightarrow> (\<And>x. x \<in> set ys \<Longrightarrow> f x = g x)
   \<Longrightarrow> allOf_loop f xs m = allOf_loop g ys m'"
  by (induction ys arbitrary: xs m m') (auto split: sum.splits)

lemma size_map_of_less:
  "map_of kvs k = Some v \<Longrightarrow> size v < size (JObj kvs)"
  by (induction kvs) (auto split: if_splits)

lemma size_value_less:
  "(k, v) \<in> set kvs \<Longrightarrow> size v < size (JObj kvs)"
  by (induction kvs) auto

lemma size_item_less:
  "x \<in> set xs \<Longrightarrow> size x < size (JArr xs)"
  by (induction xs) auto

lemma size_py_iter:
  "py_iter v = Inr xs \<Longrightarrow> x \<in> set xs \<Longrightarrow> size x < Suc (size v)"
  by (cases v) (auto dest: size_item_less)

lemma size_allOf_member:
  "map_of kvs k = Some members \<Longrightarrow> py_iter members = Inr subs \<Longrightarrow> x \<in> set subs
   \<Longrightarrow> size x < size (JObj kvs)"
  using size_map_of_less [of kvs k members] size_py_iter [of members subs x] by simp

text \<open>
  \<^verbatim>\<open>resolve_refs(schema, root_schema, file_path)\<close>, lines 74 to 134. The number \<open>n\<close> is
  how many more references may be followed one from another: Python follows them by
  recursion and raises \<^verbatim>\<open>RecursionError\<close> when its stack is used up. A reference
  that is not a string has no \<^verbatim>\<open>startswith\<close>. A reference that starts with neither
  \<^verbatim>\<open>#/\<close> nor \<^verbatim>\<open>./\<close> leaves the \<^verbatim>\<open>if\<close> and reaches the last
  \<^verbatim>\<open>return schema\<close>.
\<close>

function resolve_refs :: "env \<Rightarrow> nat \<Rightarrow> json \<Rightarrow> json \<Rightarrow> string \<Rightarrow> error + json" where
  "resolve_refs E n schema root_schema file_path =
     (if \<not> truthy schema then Inr schema
      else case schema of
        JObj kvs \<Rightarrow>
          (case map_of kvs ''$ref'' of
             Some ref \<Rightarrow>
               (case ref of
                  JStr r \<Rightarrow>
                    if startswith r ''#/'' then
                      (case walk_internal root_schema (py_split CHR ''/'' (drop 2 r)) of
                         Inl e \<Rightarrow> Inl e
                       | Inr resolved \<Rightarrow>
                           (case n of
                              0 \<Rightarrow> Inl RecursionError
                            | Suc n' \<Rightarrow> resolve_refs E n' resolved root_schema file_path))
                    else if startswith r ''./'' then
                      (let ref_parts = py_split CHR ''#'' r;
                           ref_file = sibling_path E file_path (hd ref_parts)
                       in case read_json E ref_file of
                            None \<Rightarrow> Inl ReadError
                          | Some ref_content \<Rightarrow>
                              if length ref_parts > 1 \<and> ref_parts ! 1 \<noteq> [] then
                                (case walk_external ref_content
                                        (py_split CHR ''/'' (drop 1 (ref_parts ! 1))) of
                                   Inl e \<Rightarrow> Inl e
                                 | Inr resolved \<Rightarrow>
                                     (case n of
                                        0 \<Rightarrow> Inl RecursionError
                                      | Suc n' \<Rightarrow> resolve_refs E n' resolved ref_content ref_file))
                              else Inr ref_content)
                    else Inr schema
                | _ \<Rightarrow> Inl AttributeError)
           | None \<Rightarrow>
               (case map_of kvs ''allOf'' of
                  Some members \<Rightarrow>
                    (case py_iter members of
                       Inl e \<Rightarrow> Inl e
                     | Inr subs \<Rightarrow>
                         (case allOf_loop (\<lambda>sub_schema. resolve_refs E n sub_schema root_schema file_path)
                                 subs \<lparr>m_properties = [], m_required = [], m_additional = None\<rparr> of
                            Inl e \<Rightarrow> Inl e
                          | Inr m \<Rightarrow> finish_merged E m))
                | None \<Rightarrow>
                    (case map_values (\<lambda>v. resolve_refs E n v root_schema file_path) kvs of
                       Inl e \<Rightarrow> Inl e
                     | Inr kws \<Rightarrow> Inr (JObj kws))))
      | JArr xs \<Rightarrow>
          (case map_result (\<lambda>item. resolve_refs E n item root_schema file_path) xs of
             Inl e \<Rightarrow> Inl e
           | Inr ys \<Rightarrow> Inr (JArr ys))
      | _ \<Rightarrow> Inr schema)"
  by pat_completeness auto
termination
  by (relation "inv_image (less_than <*lex*> less_than)
                  (\<lambda>(E, n, schema, root_schema, file_path). (n, size schema))")
     (auto dest: size_value_less size_item_less size_allOf_member)

declare resolve_refs.simps [simp del]

text \<open>No \<^verbatim>\<open>$ref\<close> key and no \<^verbatim>\<open>allOf\<close> key in the fragment or in anything
  reachable from it through dict values and list items.\<close>

fun ref_free :: "json \<Rightarrow> bool" where
  "ref_free (JObj kvs) =
     (map_of kvs ''$ref'' = None \<and> map_of kvs ''allOf'' = None
      \<and> list_all (\<lambda>kv. ref_free (snd kv)) kvs)"
| "ref_free (JArr xs) = list_all ref_free xs"
| "ref_free v = True"

section \<open>The schema loader\<close>

text \<open>\<^verbatim>\<open>event_name_to_type\<close>, lines 137 to 140.\<close>

definition event_name_to_type :: "env \<Rightarrow> string \<Rightarrow> string" where
  "event_name_to_type E event_name =
     concat (map (capitalize E)
               (py_split CHR ''_'' (map (\<lambda>c. if c = CHR ''-'' then CHR ''_'' else c) event_name)))
     @ ''Properties''"

text \<open>The dict appended at lines 62 to 68.\<close>

record resolved_event =
  event_name :: string
  type_name :: string
  event_schema :: json
  event_properties :: json
  event_required :: json

text \<open>Lines 61 to 68, for one item of \<^verbatim>\<open>content['events']\<close>.\<close>

definition make_event :: "env \<Rightarrow> nat \<Rightarrow> json \<Rightarrow> string \<Rightarrow> string \<times> json \<Rightarrow> error + resolved_event" where
  "make_event E n content file_path item =
     (case resolve_refs E n (snd item) content file_path of
        Inl e \<Rightarrow> Inl e
      | Inr resolved \<Rightarrow>
          (case py_get resolved ''properties'' (JObj []) of
             Inl e \<Rightarrow> Inl e
           | Inr props \<Rightarrow>
               (case py_get resolved ''required'' (JArr []) of
                  Inl e \<Rightarrow> Inl e
                | Inr req \<Rightarrow>
                    Inr \<lparr>event_name = fst item,
                         type_name = event_name_to_type E (fst item),
                         event_schema = resolved,
                         event_properties = props,
                         event_required = req\<rparr>)))"

text \<open>Lines 56 to 68, for one file. \<^verbatim>\<open>.items()\<close> is a method of dicts only.\<close>

definition load_file :: "env \<Rightarrow> nat \<Rightarrow> string \<Rightarrow> error + resolved_event list" where
  "load_file E n file_path =
     (case read_json E file_path of
        None \<Rightarrow> Inl ReadError
      | Some content \<Rightarrow>
          (case py_contains content (JStr ''events'') of
             Inl e \<Rightarrow> Inl e
           | Inr has_events \<Rightarrow>
               if has_events then
                 (case py_getitem content ''events'' of
                    Inl e \<Rightarrow> Inl e
                  | Inr events \<Rightarrow>
                      (case events of
                         JObj items \<Rightarrow> map_result (make_event E n content file_path) items
                       | _ \<Rightarrow> Inl AttributeError))
               else Inr []))"

text \<open>
  \<^verbatim>\<open>load_schemas\<close>, lines 50 to 71. \<open>files\<close> is what \<^verbatim>\<open>glob\<close> returns for the
  pattern, in the order the file system gives, and \<open>n\<close> the depth each call of
  \<^verbatim>\<open>resolve_refs\<close> has. \<^verbatim>\<open>sorted(..., reverse=True)\<close> is stable: events of the same
  name keep their order.
\<close>

definition load_schemas :: "env \<Rightarrow> nat \<Rightarrow> string list \<Rightarrow> error + resolved_event list" where
  "load_schemas E n files =
     (case map_result (load_file E n) (sort files) of
        Inl e \<Rightarrow> Inl e
      | Inr per_file \<Rightarrow> Inr (rev (sort_key event_name (rev (concat per_file)))))"

text \<open>The keys of \<^verbatim>\<open>SCHEMAS\<close> in the order lines 263 and 264 write them.\<close>

definition schema_table_keys :: "resolved_event list \<Rightarrow> string list" where
  "schema_table_keys evs = map event_name evs"

section \<open>The generated wrapper\<close>

text \<open>
  The class that lines 269 to 376 write out, as it runs. The wrapped SDK is the list of
  \<^verbatim>\<open>posthog.capture\<close> calls made so far, and \<^verbatim>\<open>warnings.warn\<close> the list of warnings.
  The strings \<^verbatim>\<open>Missing required field: ...\<close> and \<^verbatim>\<open>Invalid enum value for ...\<close>
  are kept as the values they are formatted from.
\<close>

datatype validation_mode = STRICT | WARNING | DISABLED

record wrapper =
  validation_mode :: validation_mode
  schemas :: "(string \<times> json) list"

datatype payload =
    Event_properties "(string \<times> json) list"
  | Warning_properties string "validation_error list" "(string \<times> json) list"

record sdk_call =
  call_distinct_id :: string
  call_event :: string
  call_properties :: payload
  call_kwargs :: "(string \<times> json) list"

record world =
  sdk_calls :: "sdk_call list"
  warnings :: "(string \<times> validation_error list) list"

definition posthog_capture :: "sdk_call \<Rightarrow> world \<Rightarrow> world" where
  "posthog_capture c w = w\<lparr>sdk_calls := sdk_calls w @ [c]\<rparr>"

definition warnings_warn :: "string \<Rightarrow> validation_error list \<Rightarrow> world \<Rightarrow> world" where
  "warnings_warn ev errs w = w\<lparr>warnings := warnings w @ [(ev, errs)]\<rparr>"

text \<open>Lines 304 to 306.\<close>

fun check_required :: "(string \<times> json) list \<Rightarrow> json list \<Rightarrow> error + validation_error list" where
  "check_required props [] = Inr []"
| "check_required props (field # others) =
     (case py_contains (JObj props) field of
        Inl e \<Rightarrow> Inl e
      | Inr present \<Rightarrow>
          (case check_required props others of
             Inl e \<Rightarrow> Inl e
           | Inr errs \<Rightarrow> Inr ((if present then [] else [Missing_required_field field]) @ errs)))"

text \<open>Lines 310 to 315, for one item of \<^verbatim>\<open>properties\<close>.\<close>

definition check_enum :: "json \<Rightarrow> string \<Rightarrow> json \<Rightarrow> error + validation_error list" where
  "check_enum sch field val =
     (case py_get sch ''properties'' (JObj []) of
        Inl e \<Rightarrow> Inl e
      | Inr declared \<Rightarrow>
          (case py_contains declared (JStr field) of
             Inl e \<Rightarrow> Inl e
           | Inr is_declared \<Rightarrow>
               if is_declared then
                 (case py_getitem sch ''properties'' of
                    Inl e \<Rightarrow> Inl e
                  | Inr ps \<Rightarrow>
                      (case py_getitem ps field of
                         Inl e \<Rightarrow> Inl e
                       | Inr prop_schema \<Rightarrow>
                           (case py_contains prop_schema (JStr ''enum'') of
                              Inl e \<Rightarrow> Inl e
                            | Inr has_enum \<Rightarrow>
                                if has_enum then
                                  (case py_getitem prop_schema ''enum'' of
                                     Inl e \<Rightarrow> Inl e
                                   | Inr enum \<Rightarrow>
                                       (case py_contains enum val of
                                          Inl e \<Rightarrow> Inl e
                                        | Inr found \<Rightarrow>
                                            Inr (if found then []
                                                 else [Invalid_enum_value field val])))
                                else Inr [])))
               else Inr []))"

fun check_enums :: "json \<Rightarrow> (string \<times> json) list \<Rightarrow> error + validation_error list" where
  "check_enums sch [] = Inr []"
| "check_enums sch ((field, val) # rest) =
     (case check_enum sch field val of
        Inl e \<Rightarrow> Inl e
      | Inr errs \<Rightarrow>
          (case check_enums sch rest of Inl e \<Rightarrow> Inl e | Inr errs' \<Rightarrow> Inr (errs @ errs')))"

text \<open>\<^verbatim>\<open>_validate\<close>, lines 292 to 317: \<open>None\<close> or a list of errors that is not
  empty.\<close>

definition validate :: "wrapper \<Rightarrow> string \<Rightarrow> (string \<times> json) list \<Rightarrow> error + validation_error list option" where
  "validate self ev props =
     (if validation_mode self = DISABLED then Inr None
      else case map_of (schemas self) ev of
        None \<Rightarrow> Inr None
      | Some sch \<Rightarrow>
          if \<not> truthy sch then Inr None
          else
            (case py_get sch ''required'' (JArr []) of
               Inl e \<Rightarrow> Inl e
             | Inr req \<Rightarrow>
                 (case py_iter req of
                    Inl e \<Rightarrow> Inl e
                  | Inr names \<Rightarrow>
                      (case check_required props names of
                         Inl e \<Rightarrow> Inl e
                       | Inr errs1 \<Rightarrow>
                           (case check_enums sch props of
                              Inl e \<Rightarrow> Inl e
                            | Inr errs2 \<Rightarrow>
                                Inr (if errs1 @ errs2 = [] then None
                                     else Some (errs1 @ errs2)))))))"

text \<open>
  \<^verbatim>\<open>capture\<close>, lines 336 to 376. \<open>props\<close> is \<open>None\<close> when the argument is left out
  or is \<^verbatim>\<open>None\<close>. The result is the exception raised, if any, and the world after
  the call.
\<close>

definition capture ::
  "wrapper \<Rightarrow> string \<Rightarrow> string \<Rightarrow> (string \<times> json) list option \<Rightarrow> (string \<times> json) list
   \<Rightarrow> world \<Rightarrow> (error + unit) \<times> world" where
  "capture self did ev props kwargs w =
     (let properties = (case props of None \<Rightarrow> [] | Some p \<Rightarrow> if p = [] then [] else p);
          send = posthog_capture \<lparr>call_distinct_id = did, call_event = ev,
                                  call_properties = Event_properties properties,
                                  call_kwargs = kwargs\<rparr>
      in case validate self ev properties of
           Inl e \<Rightarrow> (Inl e, w)
         | Inr errors \<Rightarrow>
             (case errors of
                None \<Rightarrow> (Inr (), send w)
              | Some errs \<Rightarrow>
                  if errs \<noteq> [] then
                    (if validation_mode self = STRICT then
                       (Inl (ValueError_validation ev errs), w)
                     else if validation_mode self = WARNING then
                       (Inr (),
                        send (posthog_capture
                                \<lparr>call_distinct_id = did,
                                 call_event = ''$schema_validation_warning'',
                                 call_properties = Warning_properties ev errs properties,
                                 call_kwargs = []\<rparr>
                                (warnings_warn ev errs w)))
                     else (Inr (), send w))
                  else (Inr (), send w)))"

section \<open>Example inputs\<close>

text \<open>A file \<^verbatim>\<open>schemas/common.json\<close> with one shared definition.\<close>

definition example_common :: json where
  "example_common =
     JObj [(''definitions'',
            JObj [(''Shared'',
                   JObj [(''type'', JStr ''object''),
                         (''properties'', JObj [(''x'', JObj [(''type'', JStr ''string'')])])])])]"

text \<open>One way \<^verbatim>\<open>list(set(xs))\<close> may come out: the first of each class of equal
  elements, in the order of the list.\<close>

fun py_dedup :: "json list \<Rightarrow> json list" where
  "py_dedup [] = []"
| "py_dedup (x # xs) = x # filter (\<lambda>y. \<not> py_eq x y) (py_dedup xs)"

text \<open>A file system that holds \<^verbatim>\<open>schemas/common.json\<close> only; a sibling of a path is
  looked for in the directory of the path.\<close>

definition example_env :: env where
  "example_env =
     \<lparr>read_json = map_of [(''schemas/common.json'', example_common)],
      sibling_path = (\<lambda>p r. rev (dropWhile (\<lambda>c. c \<noteq> CHR ''/'') (rev p)) @ drop 2 r),
      set_to_list = py_dedup,
      capitalize = (\<lambda>s. s)\<rparr>"

text \<open>A wrapper with one event, \<^verbatim>\<open>signup\<close>: \<^verbatim>\<open>email\<close> is required and
  \<^verbatim>\<open>plan\<close> is one of two values.\<close>

definition example_wrapper :: "validation_mode \<Rightarrow> wrapper" where
  "example_wrapper mode =
     \<lparr>validation_mode = mode,
      schemas = [(''signup'',
                  JObj [(''type'', JStr ''object''),
                        (''properties'',
                         JObj [(''plan'', JObj [(''type'', JStr ''string''),
                                                (''enum'', JArr [JStr ''free'', JStr ''pro''])]),
                               (''email'', JObj [(''type'', JStr ''string'')])]),
                        (''required'', JArr [JStr ''email''])])]\<rparr>"

text \<open>No call made and no warning given yet.\<close>

definition empty_world :: world where
  "empty_world = \<lparr>sdk_calls = [], warnings = []\<rparr>"

text \<open>
  A well-formed event schema, as the validation of lines 304 to 315 reads it: an object
  whose \<^verbatim>\<open>required\<close>, if any, is a list of names and whose \<^verbatim>\<open>properties\<close>, if any,
  is an object of objects, the \<^verbatim>\<open>enum\<close> of each, if any, being a list.
\<close>

fun is_string :: "json \<Rightarrow> bool" where
  "is_string (JStr s) = True"
| "is_string v = False"

fun wf_prop_schema :: "json \<Rightarrow> bool" where
  "wf_prop_schema (JObj kvs) =
     (case map_of kvs ''enum'' of None \<Rightarrow> True | Some (JArr xs) \<Rightarrow> True | Some v \<Rightarrow> False)"
| "wf_prop_schema v = False"

fun wf_event_schema :: "json \<Rightarrow> bool" where
  "wf_event_schema (JObj kvs) =
     ((case map_of kvs ''required'' of
         None \<Rightarrow> True | Some (JArr names) \<Rightarrow> list_all is_string names | Some v \<Rightarrow> False)
      \<and> (case map_of kvs ''properties'' of
           None \<Rightarrow> True
         | Some (JObj ps) \<Rightarrow> list_all (\<lambda>kv. wf_prop_schema (snd kv)) ps
         | Some v \<Rightarrow> False))"
| "wf_event_schema v = False"


text \<open>A document whose definitions \<^verbatim>\<open>A\<close> and \<^verbatim>\<open>B\<close> refer to each other.\<close>

definition example_cyclic :: json where
  "example_cyclic =
     JObj [(''definitions'',
            JObj [(''A'', JObj [(''$ref'', JStr ''#/definitions/B'')]),
                  (''B'', JObj [(''$ref'', JStr ''#/definitions/A'')])])]"

text \<open>\<^verbatim>\<open>str.capitalize\<close> on ASCII strings, for the examples.\<close>

definition ascii_upper :: "char \<Rightarrow> char" where
  "ascii_upper c = (if CHR ''a'' \<le> c \<and> c \<le> CHR ''z'' then char_of (of_char c - (32::nat)) else c)"

definition ascii_lower :: "char \<Rightarrow> char" where
  "ascii_lower c = (if CHR ''A'' \<le> c \<and> c \<le> CHR ''Z'' then char_of (of_char c + (32::nat)) else c)"

definition ascii_capitalize :: "string \<Rightarrow> string" where
  "ascii_capitalize s = (case s of [] \<Rightarrow> [] | c # cs \<Rightarrow> ascii_upper c # map ascii_lower cs)"

text \<open>Two schema files with one event each, \<^verbatim>\<open>alpha_event\<close> and
  \<^verbatim>\<open>beta_event\<close>.\<close>

definition example_files :: env where
  "example_files =
     \<lparr>read_json = map_of
        [(''schemas/a.schema.json'',
          JObj [(''events'', JObj [(''alpha_event'', JObj [(''type'', JStr ''object'')])])]),
         (''schemas/b.schema.json'',
          JObj [(''events'', JObj [(''beta_event'', JObj [(''type'', JStr ''object'')])])])],
      sibling_path = (\<lambda>p r. rev (dropWhile (\<lambda>c. c \<noteq> CHR ''/'') (rev p)) @ drop 2 r),
      set_to_list = py_dedup,
      capitalize = ascii_capitalize\<rparr>"

text \<open>
  The merge of \<^verbatim>\<open>allOf\<close> in the words of the specification, over the resolved members:
  the union of their \<^verbatim>\<open>properties\<close>, a later entry replacing an earlier one of the same
  name; the union of their \<^verbatim>\<open>required\<close> names; the \<^verbatim>\<open>additionalProperties\<close> of the
  last member that has one.
\<close>

fun member_properties :: "json \<Rightarrow> (string \<times> json) list" where
  "member_properties (JObj kvs) =
     (case map_of kvs ''properties'' of Some (JObj ps) \<Rightarrow> ps | _ \<Rightarrow> [])"
| "member_properties v = []"

fun member_required :: "json \<Rightarrow> json list" where
  "member_required (JObj kvs) =
     (case map_of kvs ''required'' of Some (JArr names) \<Rightarrow> names | _ \<Rightarrow> [])"
| "member_required v = []"

fun member_additional :: "json \<Rightarrow> json option" where
  "member_additional (JObj kvs) = map_of kvs ''additionalProperties''"
| "member_additional v = None"

definition allOf_properties :: "json list \<Rightarrow> string \<Rightarrow> json option" where
  "allOf_properties rs = map_of (rev (concat (map member_properties rs)))"

definition allOf_required :: "json list \<Rightarrow> json set" where
  "allOf_required rs = set (concat (map member_required rs))"

definition allOf_additional :: "json list \<Rightarrow> json option" where
  "allOf_additional rs =
     (case filter (\<lambda>r. member_additional r \<noteq> None) rs of
        [] \<Rightarrow> None
      | d # ds \<Rightarrow> member_additional (last (d # ds)))"

text \<open>A resolved member that is an object has an object as \<^verbatim>\<open>properties\<close> and a
  list of names as \<^verbatim>\<open>required\<close>, where it has them.\<close>

fun plain_member :: "json \<Rightarrow> bool" where
  "plain_member (JObj kvs) =
     ((case map_of kvs ''properties'' of
         None \<Rightarrow> True | Some (JObj ps) \<Rightarrow> True | Some v \<Rightarrow> False)
      \<and> (case map_of kvs ''required'' of
           None \<Rightarrow> True | Some (JArr names) \<Rightarrow> list_all is_string names | Some v \<Rightarrow> False))"
| "plain_member v = True"

text \<open>
  What is known of \<^verbatim>\<open>list(set(xs))\<close> for elements that can be hashed: it lists elements
  of \<open>xs\<close>, one for every class of equal elements, no two of them equal.
\<close>

definition set_listing :: "(json list \<Rightarrow> json list) \<Rightarrow> bool" where
  "set_listing f =
     (\<forall>xs. list_all hashable xs \<longrightarrow>
        set (f xs) \<subseteq> set xs
        \<and> (\<forall>x\<in>set xs. \<exists>y\<in>set (f xs). py_eq x y)
        \<and> sorted_wrt (\<lambda>a b. \<not> py_eq a b) (f xs))"

text \<open>The definition \<^verbatim>\<open>Shared\<close> of \<^verbatim>\<open>schemas/common.json\<close> and two more members
  for an \<^verbatim>\<open>allOf\<close>.\<close>

definition example_shared :: json where
  "example_shared =
     JObj [(''type'', JStr ''object''),
           (''properties'', JObj [(''x'', JObj [(''type'', JStr ''string'')])])]"

definition example_member :: json where
  "example_member =
     JObj [(''type'', JStr ''object''),
           (''properties'', JObj [(''x'', JObj [(''type'', JStr ''integer'')]),
                                  (''y'', JObj [(''type'', JStr ''string'')])]),
           (''required'', JArr [JStr ''y'']),
           (''additionalProperties'', JBool False)]"

definition example_requirement :: json where
  "example_requirement = JObj [(''required'', JArr [JStr ''y'', JStr ''x''])]"

text \<open>
  The references \<^verbatim>\<open>resolve_refs\<close> follows and resolves: \<^verbatim>\<open>#/...\<close>, and
  \<^verbatim>\<open>./file#/...\<close> with a pointer after the \<^verbatim>\<open>#\<close> that is not empty.
\<close>

definition supported_ref :: "string \<Rightarrow> bool" where
  "supported_ref r =
     (startswith r ''#/''
      \<or> (startswith r ''./'' \<and> length (py_split CHR ''#'' r) > 1 \<and> py_split CHR ''#'' r ! 1 \<noteq> []))"

text \<open>An object that is not itself a reference or a composition.\<close>

fun plain_object :: "json \<Rightarrow> bool" where
  "plain_object (JObj ps) = (map_of ps ''$ref'' = None \<and> map_of ps ''allOf'' = None)"
| "plain_object v = False"

text \<open>
  A well-formed document: every \<^verbatim>\<open>$ref\<close> string in it is one of the references above,
  and every value under a key \<^verbatim>\<open>properties\<close> is an object of named sub-schemas.
\<close>

fun well_formed :: "json \<Rightarrow> bool" where
  "well_formed (JObj kvs) =
     ((case map_of kvs ''$ref'' of Some (JStr r) \<Rightarrow> supported_ref r | _ \<Rightarrow> True)
      \<and> list_all (\<lambda>kv. (fst kv = ''properties'' \<longrightarrow> plain_object (snd kv))
                        \<and> well_formed (snd kv)) kvs)"
| "well_formed (JArr xs) = list_all well_formed xs"
| "well_formed v = True"

text \<open>What holds of every resolved fragment of a well-formed document.\<close>

definition resolved_ok :: "json \<Rightarrow> bool" where
  "resolved_ok r = (ref_free r \<and> well_formed r)"

text \<open>The same for the entries of \<^verbatim>\<open>merged['properties']\<close> and for \<^verbatim>\<open>merged\<close>
  during the loop of lines 114 to 122.\<close>

definition entry_ok :: "string \<times> json \<Rightarrow> bool" where
  "entry_ok kv =
     (fst kv \<noteq> ''$ref'' \<and> fst kv \<noteq> ''allOf'' \<and> resolved_ok (snd kv)
      \<and> (fst kv = ''properties'' \<longrightarrow> plain_object (snd kv)))"

definition merged_ok :: "merged \<Rightarrow> bool" where
  "merged_ok m =
     (list_all entry_ok (m_properties m)
      \<and> (case m_additional m of None \<Rightarrow> True | Some a \<Rightarrow> resolved_ok a))"

text \<open>An event schema with an external reference, and an \<^verbatim>\<open>allOf\<close> over an internal
  reference and an object; and what it resolves to in \<^verbatim>\<open>schemas/events.json\<close>.\<close>

definition example_order :: json where
  "example_order =
     JObj [(''type'', JStr ''object''),
           (''properties'',
            JObj [(''buyer'', JObj [(''$ref'', JStr ''./common.json#/definitions/Shared'')]),
                  (''item'', JObj [(''allOf'', JArr [JObj [(''$ref'', JStr ''#/definitions/Shared'')],
                                                     example_member])])]),
           (''required'', JArr [JStr ''buyer''])]"

definition example_order_resolved :: json where
  "example_order_resolved =
     JObj [(''type'', JStr ''object''),
           (''properties'',
            JObj [(''buyer'', example_shared),
                  (''item'',
                   JObj [(''type'', JStr ''object''),
                         (''properties'', JObj [(''x'', JObj [(''type'', JStr ''integer'')]),
                                                (''y'', JObj [(''type'', JStr ''string'')])]),
                         (''required'', JArr [JStr ''y'']),
                         (''additionalProperties'', JBool False)])]),
           (''required'', JArr [JStr ''buyer''])]"








section \<open>Properties of the resolver\<close>

lemma resolve_falsy:
  "\<not> truthy s \<Longrightarrow> resolve_refs E n s root_schema file_path = Inr s"
  by (subst resolve_refs.simps) simp

lemma map_result_id:
  "(\<And>x. x \<in> set xs \<Longrightarrow> f x = Inr x) \<Longrightarrow> map_result f xs = Inr xs"
  by (induction xs) auto

lemma map_values_id:
  "(\<And>k v. (k, v) \<in> set kvs \<Longrightarrow> f v = Inr v) \<Longrightarrow> map_values f kvs = Inr kvs"
proof (induction kvs)
  case Nil
  show ?case by simp
next
  case (Cons a kvs)
  obtain k v where a: "a = (k, v)" by (cases a)
  have "f v = Inr v" using Cons.prems [of k v] by (simp add: a)
  moreover have "map_values f kvs = Inr kvs"
  proof (rule Cons.IH)
    fix k' v'
    assume "(k', v') \<in> set kvs"
    then show "f v' = Inr v'" using Cons.prems [of k' v'] by simp
  qed
  ultimately show ?case by (simp add: a)
qed

text \<open>
  C9. Resolving a fragment that has no \<^verbatim>\<open>$ref\<close> and no \<^verbatim>\<open>allOf\<close> key anywhere
  returns the fragment itself: the same keys in the same order, the same values. It holds
  for every root document, file path and depth, and it needs no file.
\<close>

theorem resolve_refs_idempotent:
  "ref_free s \<Longrightarrow> resolve_refs E n s root_schema file_path = Inr s"
proof (induction s)
  case (JArr xs)
  have "map_result (\<lambda>item. resolve_refs E n item root_schema file_path) xs = Inr xs"
  proof (rule map_result_id)
    fix x assume "x \<in> set xs"
    then show "resolve_refs E n x root_schema file_path = Inr x"
      using JArr by (simp add: list_all_iff)
  qed
  then show ?case by (subst resolve_refs.simps) simp
next
  case (JObj kvs)
  have "map_values (\<lambda>v. resolve_refs E n v root_schema file_path) kvs = Inr kvs"
  proof (rule map_values_id)
    fix k v assume kv: "(k, v) \<in> set kvs"
    then have "ref_free v" using JObj.prems by (auto simp: list_all_iff)
    with kv show "resolve_refs E n v root_schema file_path = Inr v"
      using JObj.IH [of "(k, v)" v] by simp
  qed
  with JObj.prems show ?case by (subst resolve_refs.simps) simp
qed (subst resolve_refs.simps, simp)+

theorem resolve_refs_idempotent_witness:
  "ref_free (JObj [(''type'', JStr ''object''),
                   (''properties'', JObj [(''x'', JObj [(''type'', JStr ''string'')])]),
                   (''required'', JArr [JStr ''x''])])
   \<and> resolve_refs example_env 0
        (JObj [(''type'', JStr ''object''),
               (''properties'', JObj [(''x'', JObj [(''type'', JStr ''string'')])]),
               (''required'', JArr [JStr ''x''])])
        example_common ''schemas/events.json''
      = Inr (JObj [(''type'', JStr ''object''),
                   (''properties'', JObj [(''x'', JObj [(''type'', JStr ''string'')])]),
                   (''required'', JArr [JStr ''x''])])"
proof -
  have h: "ref_free (JObj [(''type'', JStr ''object''),
                           (''properties'', JObj [(''x'', JObj [(''type'', JStr ''string'')])]),
                           (''required'', JArr [JStr ''x''])])"
    by simp
  show ?thesis using h resolve_refs_idempotent [OF h] by simp
qed

text \<open>
  C6, as the code has it. A fragment whose \<^verbatim>\<open>$ref\<close> is a string that starts with
  neither \<^verbatim>\<open>#/\<close> nor \<^verbatim>\<open>./\<close> is returned as it is, with its \<^verbatim>\<open>$ref\<close> key: no
  exception is raised.
\<close>

theorem unsupported_ref_returned_unchanged:
  "map_of kvs ''$ref'' = Some (JStr r) \<Longrightarrow> \<not> startswith r ''#/'' \<Longrightarrow> \<not> startswith r ''./''
   \<Longrightarrow> resolve_refs E n (JObj kvs) root_schema file_path = Inr (JObj kvs)"
  by (subst resolve_refs.simps) auto

theorem unsupported_ref_returned_unchanged_witness:
  "map_of [(''$ref'', JStr ''urn:shared:address'')] ''$ref'' = Some (JStr ''urn:shared:address'')
   \<and> \<not> startswith ''urn:shared:address'' ''#/''
   \<and> \<not> startswith ''urn:shared:address'' ''./''
   \<and> resolve_refs example_env 3 (JObj [(''$ref'', JStr ''urn:shared:address'')])
         example_common ''schemas/events.json''
       = Inr (JObj [(''$ref'', JStr ''urn:shared:address'')])"
proof -
  have a: "map_of [(''$ref'', JStr ''urn:shared:address'')] ''$ref'' = Some (JStr ''urn:shared:address'')"
    by simp
  have b: "\<not> startswith ''urn:shared:address'' ''#/''" by (simp add: startswith_def)
  have c: "\<not> startswith ''urn:shared:address'' ''./''" by (simp add: startswith_def)
  show ?thesis using a b c unsupported_ref_returned_unchanged [OF a b c] by simp
qed

text \<open>C6, as stated, fails: a reference with the scheme \<^verbatim>\<open>https:\<close> comes back as a
  value, not as an error.\<close>

theorem unsupported_ref_counterexample:
  "resolve_refs example_env 1000 (JObj [(''$ref'', JStr ''https://example.com/address.json'')])
     example_common ''schemas/events.json''
   = Inr (JObj [(''$ref'', JStr ''https://example.com/address.json'')])"
  by (subst resolve_refs.simps) (simp add: startswith_def)

text \<open>
  C7, at an external reference whose first segment is absent from the file:
  \<^verbatim>\<open>schemas/common.json\<close> has no key \<^verbatim>\<open>defs\<close>, the walk of lines 104 and 105 goes on
  with \<^verbatim>\<open>None\<close> and \<^verbatim>\<open>None.get\<close> raises.
\<close>

theorem external_missing_segment_raises:
  "resolve_refs example_env 1000 (JObj [(''$ref'', JStr ''./common.json#/defs/Shared'')])
     example_common ''schemas/events.json''
   = Inl AttributeError"
  by (subst resolve_refs.simps) (simp add: startswith_def example_env_def example_common_def)

text \<open>The same reference written as an internal one gives \<^verbatim>\<open>None\<close>: the walk of lines
  87 to 90 stops at the absent segment.\<close>

lemma internal_missing_segment_is_None:
  "resolve_refs example_env 1000 (JObj [(''$ref'', JStr ''#/defs/Shared'')])
     example_common ''schemas/events.json''
   = Inr JNull"
  by (subst resolve_refs.simps)
     (simp add: startswith_def example_env_def example_common_def resolve_falsy)

section \<open>Properties of the generated wrapper\<close>

lemma check_required_missing:
  "x \<in> set names \<Longrightarrow> py_contains (JObj props) x = Inr False \<Longrightarrow> check_required props names = Inr errs
   \<Longrightarrow> Missing_required_field x \<in> set errs"
  by (induction names arbitrary: errs) (auto split: sum.splits if_splits)

lemma check_required_raises_or_reports:
  "x \<in> set names \<Longrightarrow> py_contains (JObj props) x = Inr False
   \<Longrightarrow> (\<exists>e. check_required props names = Inl e)
       \<or> (\<exists>errs. check_required props names = Inr errs \<and> Missing_required_field x \<in> set errs)"
  using check_required_missing [of x names props]
  by (cases "check_required props names") auto

lemma check_required_strings:
  "list_all is_string names \<Longrightarrow> \<exists>errs. check_required props names = Inr errs"
proof (induction names)
  case Nil
  show ?case by simp
next
  case (Cons a names)
  then obtain s where "a = JStr s" by (cases a) auto
  with Cons show ?case by auto
qed

lemma check_enum_wf:
  assumes "wf_event_schema sch"
  shows "\<exists>errs. check_enum sch field val = Inr errs"
proof -
  obtain kvs where sch: "sch = JObj kvs" using assms by (cases sch) auto
  show ?thesis
  proof (cases "map_of kvs ''properties''")
    case None
    then show ?thesis by (simp add: check_enum_def sch)
  next
    case (Some p)
    then obtain ps where p: "p = JObj ps" and all: "list_all (\<lambda>kv. wf_prop_schema (snd kv)) ps"
      using assms by (cases p) (auto simp: sch)
    show ?thesis
    proof (cases "map_of ps field")
      case None
      then show ?thesis using Some by (simp add: check_enum_def sch p)
    next
      case (Some ps')
      note field = Some
      then have "(field, ps') \<in> set ps" by (rule map_of_SomeD)
      with all have wf: "wf_prop_schema ps'" by (auto simp: list_all_iff)
      then obtain pk where ps': "ps' = JObj pk" by (cases ps') auto
      show ?thesis
      proof (cases "map_of pk ''enum''")
        case None
        then show ?thesis using \<open>map_of kvs ''properties'' = Some p\<close> field
          by (simp add: check_enum_def sch p ps')
      next
        case (Some en)
        then obtain xs where "en = JArr xs" using wf by (cases en) (auto simp: ps')
        with Some show ?thesis using \<open>map_of kvs ''properties'' = Some p\<close> field
          by (simp add: check_enum_def sch p ps')
      qed
    qed
  qed
qed

lemma check_enums_wf:
  "wf_event_schema sch \<Longrightarrow> \<exists>errs. check_enums sch props = Inr errs"
proof (induction props)
  case Nil
  show ?case by simp
next
  case (Cons a props)
  obtain field val where a: "a = (field, val)" by (cases a)
  from Cons obtain errs' where "check_enums sch props = Inr errs'" by auto
  moreover obtain errs where "check_enum sch field val = Inr errs"
    using check_enum_wf [OF Cons.prems] by blast
  ultimately show ?case by (simp add: a)
qed

lemma validate_missing_required:
  assumes "validation_mode self = STRICT"
    and "map_of (schemas self) ev = Some (JObj skvs)"
    and "map_of skvs ''required'' = Some (JArr names)"
    and "JStr f \<in> set names"
    and "map_of props f = None"
  shows "(\<exists>e. validate self ev props = Inl e)
         \<or> (\<exists>errs. validate self ev props = Inr (Some errs)
                    \<and> Missing_required_field (JStr f) \<in> set errs)"
proof -
  have ne: "skvs \<noteq> []" using assms(3) by auto
  have c: "py_contains (JObj props) (JStr f) = Inr False" using assms(5) by simp
  from check_required_raises_or_reports [OF assms(4) c]
  show ?thesis
  proof
    assume "\<exists>e. check_required props names = Inl e"
    then show ?thesis using assms ne by (auto simp: validate_def)
  next
    assume "\<exists>errs. check_required props names = Inr errs \<and> Missing_required_field (JStr f) \<in> set errs"
    then obtain errs1 where e1: "check_required props names = Inr errs1"
      and m: "Missing_required_field (JStr f) \<in> set errs1" by blast
    show ?thesis
    proof (cases "check_enums (JObj skvs) props")
      case (Inl e)
      then show ?thesis using assms ne e1 by (simp add: validate_def)
    next
      case (Inr errs2)
      have "errs1 @ errs2 \<noteq> []" using m by auto
      then show ?thesis using assms ne e1 Inr m by (simp add: validate_def)
    qed
  qed
qed

text \<open>
  C2. In \<^verbatim>\<open>STRICT\<close> mode, for an event whose schema in the table lists \<open>f\<close> in
  \<^verbatim>\<open>required\<close>, a call whose properties lack \<open>f\<close> raises and leaves the world as
  it was: \<^verbatim>\<open>posthog.capture\<close> is not called. For a well-formed schema the exception is
  the \<^verbatim>\<open>ValueError\<close> of line 355, made from the event name and the list of errors,
  and the list reports \<open>f\<close>.
\<close>

theorem strict_missing_required_not_forwarded:
  assumes "validation_mode self = STRICT"
    and "map_of (schemas self) ev = Some (JObj skvs)"
    and "map_of skvs ''required'' = Some (JArr names)"
    and "JStr f \<in> set names"
    and "map_of (case props of None \<Rightarrow> [] | Some p \<Rightarrow> p) f = None"
  shows "snd (capture self did ev props kwargs w) = w
         \<and> isl (fst (capture self did ev props kwargs w))
         \<and> (wf_event_schema (JObj skvs) \<longrightarrow>
              (\<exists>errs. fst (capture self did ev props kwargs w) = Inl (ValueError_validation ev errs)
                      \<and> Missing_required_field (JStr f) \<in> set errs))"
proof -
  let ?p = "case props of None \<Rightarrow> [] | Some p \<Rightarrow> p"
  have norm: "(case props of None \<Rightarrow> [] | Some p \<Rightarrow> if p = [] then [] else p) = ?p"
    by (cases props) auto
  have v: "(\<exists>e. validate self ev ?p = Inl e)
           \<or> (\<exists>errs. validate self ev ?p = Inr (Some errs)
                      \<and> Missing_required_field (JStr f) \<in> set errs)"
    by (rule validate_missing_required [OF assms])
  have general: "snd (capture self did ev props kwargs w) = w
                 \<and> isl (fst (capture self did ev props kwargs w))"
    using v assms(1) by (auto simp: capture_def norm Let_def)
  have wf: "\<exists>errs. fst (capture self did ev props kwargs w) = Inl (ValueError_validation ev errs)
                   \<and> Missing_required_field (JStr f) \<in> set errs"
    if wfs: "wf_event_schema (JObj skvs)"
  proof -
    have strs: "list_all is_string names" using wfs assms(3) by simp
    obtain errs1 where e1: "check_required ?p names = Inr errs1"
      using check_required_strings [OF strs] by blast
    obtain errs2 where e2: "check_enums (JObj skvs) ?p = Inr errs2"
      using check_enums_wf [OF wfs] by blast
    have c: "py_contains (JObj ?p) (JStr f) = Inr False" using assms(5) by simp
    have m: "Missing_required_field (JStr f) \<in> set errs1"
      by (rule check_required_missing [OF assms(4) c e1])
    then have ne: "errs1 @ errs2 \<noteq> []" by auto
    have skv: "skvs \<noteq> []" using assms(3) by auto
    have "validate self ev ?p = Inr (Some (errs1 @ errs2))"
      using assms(1,2,3) e1 e2 ne skv by (simp add: validate_def)
    then show ?thesis using assms(1) m ne by (auto simp: capture_def norm Let_def)
  qed
  from general wf show ?thesis by blast
qed


lemma validate_Some_nonempty:
  "validate self ev props = Inr (Some errs) \<Longrightarrow> errs \<noteq> []"
  by (auto simp: validate_def split: if_splits option.splits sum.splits)

text \<open>
  C3. In \<^verbatim>\<open>WARNING\<close> mode, when validation gives a list of errors (never an empty
  one), the call returns and the SDK has received two more calls, in this order: the
  event \<^verbatim>\<open>$schema_validation_warning\<close> with the event name, the errors and the
  properties, then the event itself with its properties and keyword arguments.
\<close>

theorem warning_mode_sends_diagnostic_then_event:
  assumes "validation_mode self = WARNING"
    and "validate self ev (case props of None \<Rightarrow> [] | Some p \<Rightarrow> p) = Inr (Some errs)"
  shows "errs \<noteq> [] \<and>
         fst (capture self did ev props kwargs w) = Inr () \<and>
         sdk_calls (snd (capture self did ev props kwargs w)) =
           sdk_calls w @
           [\<lparr>call_distinct_id = did, call_event = ''$schema_validation_warning'',
             call_properties = Warning_properties ev errs (case props of None \<Rightarrow> [] | Some p \<Rightarrow> p),
             call_kwargs = []\<rparr>,
            \<lparr>call_distinct_id = did, call_event = ev,
             call_properties = Event_properties (case props of None \<Rightarrow> [] | Some p \<Rightarrow> p),
             call_kwargs = kwargs\<rparr>]"
proof -
  have ne: "errs \<noteq> []" using assms(2) by (rule validate_Some_nonempty)
  have norm: "(case props of None \<Rightarrow> [] | Some p \<Rightarrow> if p = [] then [] else p)
              = (case props of None \<Rightarrow> [] | Some p \<Rightarrow> p)"
    by (cases props) auto
  show ?thesis
    using assms ne
    by (simp add: capture_def norm Let_def posthog_capture_def warnings_warn_def)
qed

lemma example_validate:
  "validate (example_wrapper WARNING) ''signup'' [(''plan'', JStr ''gold'')]
   = Inr (Some [Missing_required_field (JStr ''email''), Invalid_enum_value ''plan'' (JStr ''gold'')])"
  by (simp add: validate_def example_wrapper_def check_enum_def)

theorem warning_mode_sends_diagnostic_then_event_witness:
  "validation_mode (example_wrapper WARNING) = WARNING
   \<and> validate (example_wrapper WARNING) ''signup'' [(''plan'', JStr ''gold'')]
       = Inr (Some [Missing_required_field (JStr ''email''), Invalid_enum_value ''plan'' (JStr ''gold'')])
   \<and> sdk_calls (snd (capture (example_wrapper WARNING) ''user-1'' ''signup''
                         (Some [(''plan'', JStr ''gold'')]) [] empty_world)) =
        [\<lparr>call_distinct_id = ''user-1'', call_event = ''$schema_validation_warning'',
          call_properties =
            Warning_properties ''signup''
              [Missing_required_field (JStr ''email''), Invalid_enum_value ''plan'' (JStr ''gold'')]
              [(''plan'', JStr ''gold'')],
          call_kwargs = []\<rparr>,
         \<lparr>call_distinct_id = ''user-1'', call_event = ''signup'',
          call_properties = Event_properties [(''plan'', JStr ''gold'')],
          call_kwargs = []\<rparr>]"
proof -
  have a: "validation_mode (example_wrapper WARNING) = WARNING"
    by (simp add: example_wrapper_def)
  have b: "validate (example_wrapper WARNING) ''signup''
             (case Some [(''plan'', JStr ''gold'')] of None \<Rightarrow> [] | Some p \<Rightarrow> p)
           = Inr (Some [Missing_required_field (JStr ''email''),
                        Invalid_enum_value ''plan'' (JStr ''gold'')])"
    using example_validate by simp
  show ?thesis
    using a example_validate
      warning_mode_sends_diagnostic_then_event [OF a b, of "''user-1''" "[]" empty_world]
    by (simp add: empty_world_def)
qed

theorem strict_missing_required_not_forwarded_witness:
  "validation_mode (example_wrapper STRICT) = STRICT
   \<and> map_of (schemas (example_wrapper STRICT)) ''signup''
       = Some (JObj [(''type'', JStr ''object''),
                     (''properties'',
                      JObj [(''plan'', JObj [(''type'', JStr ''string''),
                                             (''enum'', JArr [JStr ''free'', JStr ''pro''])]),
                            (''email'', JObj [(''type'', JStr ''string'')])]),
                     (''required'', JArr [JStr ''email''])])
   \<and> JStr ''email'' \<in> set [JStr ''email'']
   \<and> map_of [(''plan'', JStr ''pro'')] ''email'' = None
   \<and> snd (capture (example_wrapper STRICT) ''user-1'' ''signup''
              (Some [(''plan'', JStr ''pro'')]) [] empty_world) = empty_world
   \<and> (\<exists>errs. fst (capture (example_wrapper STRICT) ''user-1'' ''signup''
                       (Some [(''plan'', JStr ''pro'')]) [] empty_world)
                 = Inl (ValueError_validation ''signup'' errs)
               \<and> Missing_required_field (JStr ''email'') \<in> set errs)"
proof -
  let ?skvs = "[(''type'', JStr ''object''),
                (''properties'',
                 JObj [(''plan'', JObj [(''type'', JStr ''string''),
                                        (''enum'', JArr [JStr ''free'', JStr ''pro''])]),
                       (''email'', JObj [(''type'', JStr ''string'')])]),
                (''required'', JArr [JStr ''email''])]"
  have a: "validation_mode (example_wrapper STRICT) = STRICT"
    by (simp add: example_wrapper_def)
  have b: "map_of (schemas (example_wrapper STRICT)) ''signup'' = Some (JObj ?skvs)"
    by (simp add: example_wrapper_def)
  have c: "map_of ?skvs ''required'' = Some (JArr [JStr ''email''])" by simp
  have d: "JStr ''email'' \<in> set [JStr ''email'']" by simp
  have e: "map_of (case Some [(''plan'', JStr ''pro'')] of None \<Rightarrow> [] | Some p \<Rightarrow> p) ''email'' = None"
    by simp
  have wf: "wf_event_schema (JObj ?skvs)" by simp
  show ?thesis
    using a b d wf
      strict_missing_required_not_forwarded [OF a b c d e, of "''user-1''" "[]" empty_world]
    by simp
qed

lemma check_required_empty_props:
  "(\<exists>e. check_required [] (x # xs) = Inl e)
   \<or> (\<exists>errs. check_required [] (x # xs) = Inr errs \<and> errs \<noteq> [])"
  by (cases x) (auto split: sum.splits)

text \<open>
  C10. Leaving \<^verbatim>\<open>properties\<close> out is the same as passing an empty dict. In
  \<^verbatim>\<open>STRICT\<close> mode an event whose schema has a non-empty \<^verbatim>\<open>required\<close> list then
  raises and nothing is forwarded; in \<^verbatim>\<open>DISABLED\<close> mode, or for an event that is not in
  the table, the event is forwarded with empty properties.
\<close>

theorem capture_without_properties:
  "capture self did ev None kwargs w = capture self did ev (Some []) kwargs w
   \<and> (validation_mode self = STRICT \<longrightarrow> map_of (schemas self) ev = Some (JObj skvs)
        \<longrightarrow> map_of skvs ''required'' = Some (JArr (x # xs))
        \<longrightarrow> isl (fst (capture self did ev None kwargs w))
            \<and> snd (capture self did ev None kwargs w) = w)
   \<and> (validation_mode self = DISABLED \<or> map_of (schemas self) ev = None
        \<longrightarrow> capture self did ev None kwargs w
            = (Inr (), posthog_capture \<lparr>call_distinct_id = did, call_event = ev,
                                         call_properties = Event_properties [],
                                         call_kwargs = kwargs\<rparr> w))"
proof (intro conjI impI)
  show "capture self did ev None kwargs w = capture self did ev (Some []) kwargs w"
    by (simp add: capture_def)
next
  assume m: "validation_mode self = STRICT"
    and s: "map_of (schemas self) ev = Some (JObj skvs)"
    and r: "map_of skvs ''required'' = Some (JArr (x # xs))"
  have ne: "skvs \<noteq> []" using r by auto
  have "(\<exists>e. validate self ev [] = Inl e)
        \<or> (\<exists>errs. validate self ev [] = Inr (Some errs) \<and> errs \<noteq> [])"
    using check_required_empty_props [of x xs]
  proof
    assume "\<exists>e. check_required [] (x # xs) = Inl e"
    then obtain e where "check_required [] (x # xs) = Inl e" by blast
    then show ?thesis using m s r ne by (simp add: validate_def del: check_required.simps)
  next
    assume "\<exists>errs. check_required [] (x # xs) = Inr errs \<and> errs \<noteq> []"
    then obtain errs where "check_required [] (x # xs) = Inr errs" and "errs \<noteq> []" by blast
    then show ?thesis using m s r ne by (simp add: validate_def del: check_required.simps)
  qed
  then show "isl (fst (capture self did ev None kwargs w))"
    and "snd (capture self did ev None kwargs w) = w"
    using m by (auto simp: capture_def Let_def)
next
  assume "validation_mode self = DISABLED \<or> map_of (schemas self) ev = None"
  then have "validate self ev [] = Inr None" by (auto simp: validate_def)
  then show "capture self did ev None kwargs w
             = (Inr (), posthog_capture \<lparr>call_distinct_id = did, call_event = ev,
                                          call_properties = Event_properties [],
                                          call_kwargs = kwargs\<rparr> w)"
    by (simp add: capture_def Let_def)
qed

theorem capture_without_properties_witness:
  "validation_mode (example_wrapper STRICT) = STRICT
   \<and> isl (fst (capture (example_wrapper STRICT) ''user-1'' ''signup'' None [] empty_world))
   \<and> snd (capture (example_wrapper STRICT) ''user-1'' ''signup'' None [] empty_world) = empty_world
   \<and> validation_mode (example_wrapper DISABLED) = DISABLED
   \<and> capture (example_wrapper DISABLED) ''user-1'' ''signup'' None [] empty_world
       = (Inr (), \<lparr>sdk_calls = [\<lparr>call_distinct_id = ''user-1'', call_event = ''signup'',
                                    call_properties = Event_properties [],
                                    call_kwargs = []\<rparr>],
                    warnings = []\<rparr>)
   \<and> map_of (schemas (example_wrapper STRICT)) ''page_viewed'' = None
   \<and> capture (example_wrapper STRICT) ''user-1'' ''page_viewed'' None [] empty_world
       = (Inr (), \<lparr>sdk_calls = [\<lparr>call_distinct_id = ''user-1'', call_event = ''page_viewed'',
                                    call_properties = Event_properties [],
                                    call_kwargs = []\<rparr>],
                    warnings = []\<rparr>)"
proof -
  let ?skvs = "[(''type'', JStr ''object''),
                (''properties'',
                 JObj [(''plan'', JObj [(''type'', JStr ''string''),
                                        (''enum'', JArr [JStr ''free'', JStr ''pro''])]),
                       (''email'', JObj [(''type'', JStr ''string'')])]),
                (''required'', JArr [JStr ''email''])]"
  have a: "validation_mode (example_wrapper STRICT) = STRICT"
    by (simp add: example_wrapper_def)
  have b: "map_of (schemas (example_wrapper STRICT)) ''signup'' = Some (JObj ?skvs)"
    by (simp add: example_wrapper_def)
  have c: "map_of ?skvs ''required'' = Some (JArr (JStr ''email'' # []))" by simp
  have d: "validation_mode (example_wrapper DISABLED) = DISABLED"
    by (simp add: example_wrapper_def)
  have e: "map_of (schemas (example_wrapper STRICT)) ''page_viewed'' = None"
    by (simp add: example_wrapper_def)
  have p1: "isl (fst (capture (example_wrapper STRICT) ''user-1'' ''signup'' None [] empty_world))
            \<and> snd (capture (example_wrapper STRICT) ''user-1'' ''signup'' None [] empty_world)
                = empty_world"
    using a b c
      capture_without_properties [of "example_wrapper STRICT" "''user-1''" "''signup''" "[]"
                                     empty_world ?skvs "JStr ''email''" "[]"]
    by blast
  have p2: "capture (example_wrapper DISABLED) ''user-1'' ''signup'' None [] empty_world
            = (Inr (), posthog_capture \<lparr>call_distinct_id = ''user-1'', call_event = ''signup'',
                                         call_properties = Event_properties [],
                                         call_kwargs = []\<rparr> empty_world)"
    using d
      capture_without_properties [of "example_wrapper DISABLED" "''user-1''" "''signup''" "[]"
                                     empty_world ?skvs "JStr ''email''" "[]"]
    by blast
  have p3: "capture (example_wrapper STRICT) ''user-1'' ''page_viewed'' None [] empty_world
            = (Inr (), posthog_capture \<lparr>call_distinct_id = ''user-1'', call_event = ''page_viewed'',
                                         call_properties = Event_properties [],
                                         call_kwargs = []\<rparr> empty_world)"
    using e
      capture_without_properties [of "example_wrapper STRICT" "''user-1''" "''page_viewed''" "[]"
                                     empty_world ?skvs "JStr ''email''" "[]"]
    by blast
  show ?thesis
    using a d e p1 p2 p3 by (simp add: posthog_capture_def empty_world_def)
qed

section \<open>Properties of the loader\<close>

lemma example_load:
  "load_schemas example_files 10 [''schemas/b.schema.json'', ''schemas/a.schema.json''] =
     Inr [\<lparr>event_name = ''beta_event'', type_name = ''BetaEventProperties'',
           event_schema = JObj [(''type'', JStr ''object'')],
           event_properties = JObj [], event_required = JArr []\<rparr>,
          \<lparr>event_name = ''alpha_event'', type_name = ''AlphaEventProperties'',
           event_schema = JObj [(''type'', JStr ''object'')],
           event_properties = JObj [], event_required = JArr []\<rparr>]"
  by code_simp

lemma sort_mset_eq:
  fixes xs ys :: "string list"
  shows "mset xs = mset ys \<Longrightarrow> sort xs = sort ys"
  by (rule properties_for_sort) simp_all

text \<open>
  C5. Whatever \<^verbatim>\<open>load_schemas\<close> returns is in descending order of event name, and so
  are the keys of the schema table written from it. The result does not depend on the
  order in which the file system lists the files: any other order of the same files
  gives the same list.
\<close>

theorem load_schemas_descending:
  assumes "load_schemas E n files = Inr evs"
  shows "sorted_wrt (\<lambda>a b. b \<le> a) (map event_name evs)
         \<and> sorted_wrt (\<lambda>a b. b \<le> a) (schema_table_keys evs)
         \<and> (mset files' = mset files \<longrightarrow> load_schemas E n files' = Inr evs)"
proof -
  from assms obtain per_file where
    pf: "map_result (load_file E n) (sort files) = Inr per_file"
    and evs: "evs = rev (sort_key event_name (rev (concat per_file)))"
    by (auto simp: load_schemas_def split: sum.splits)
  have "sorted (map event_name (sort_key event_name (rev (concat per_file))))"
    by (rule sorted_sort_key)
  then have d: "sorted_wrt (\<lambda>a b. b \<le> a) (map event_name evs)"
    by (simp add: evs rev_map [symmetric] sorted_wrt_rev)
  have "load_schemas E n files' = Inr evs" if "mset files' = mset files"
  proof -
    have "sort files' = sort files" using that by (rule sort_mset_eq)
    then show ?thesis using assms by (simp add: load_schemas_def)
  qed
  with d show ?thesis by (simp add: schema_table_keys_def)
qed


theorem load_schemas_descending_witness:
  "load_schemas example_files 10 [''schemas/b.schema.json'', ''schemas/a.schema.json''] =
     Inr [\<lparr>event_name = ''beta_event'', type_name = ''BetaEventProperties'',
           event_schema = JObj [(''type'', JStr ''object'')],
           event_properties = JObj [], event_required = JArr []\<rparr>,
          \<lparr>event_name = ''alpha_event'', type_name = ''AlphaEventProperties'',
           event_schema = JObj [(''type'', JStr ''object'')],
           event_properties = JObj [], event_required = JArr []\<rparr>]
   \<and> sorted_wrt (\<lambda>a b. b \<le> a) [''beta_event'', ''alpha_event'']
   \<and> schema_table_keys
         [\<lparr>event_name = ''beta_event'', type_name = ''BetaEventProperties'',
           event_schema = JObj [(''type'', JStr ''object'')],
           event_properties = JObj [], event_required = JArr []\<rparr>,
          \<lparr>event_name = ''alpha_event'', type_name = ''AlphaEventProperties'',
           event_schema = JObj [(''type'', JStr ''object'')],
           event_properties = JObj [], event_required = JArr []\<rparr>]
       = [''beta_event'', ''alpha_event'']
   \<and> load_schemas example_files 10 [''schemas/a.schema.json'', ''schemas/b.schema.json''] =
     Inr [\<lparr>event_name = ''beta_event'', type_name = ''BetaEventProperties'',
           event_schema = JObj [(''type'', JStr ''object'')],
           event_properties = JObj [], event_required = JArr []\<rparr>,
          \<lparr>event_name = ''alpha_event'', type_name = ''AlphaEventProperties'',
           event_schema = JObj [(''type'', JStr ''object'')],
           event_properties = JObj [], event_required = JArr []\<rparr>]"
proof -
  have m: "mset [''schemas/a.schema.json'', ''schemas/b.schema.json'']
           = mset [''schemas/b.schema.json'', ''schemas/a.schema.json'']"
    by simp
  show ?thesis
    using example_load m
      load_schemas_descending [OF example_load,
        of "[''schemas/a.schema.json'', ''schemas/b.schema.json'']"]
    by (simp add: schema_table_keys_def)
qed

section \<open>The merge of allOf\<close>

lemma map_of_dict_set: "map_of (dict_set d k v) = (map_of d)(k \<mapsto> v)"
  by (induction d) (auto simp: fun_eq_iff)

lemma map_of_fold_dict_set:
  "map_of (fold (\<lambda>kv acc. dict_set acc (fst kv) (snd kv)) ps d) = map_of d ++ map_of (rev ps)"
proof (induction ps arbitrary: d)
  case Nil
  show ?case by simp
next
  case (Cons a ps)
  have "map_of (fold (\<lambda>kv acc. dict_set acc (fst kv) (snd kv)) (a # ps) d)
        = map_of (dict_set d (fst a) (snd a)) ++ map_of (rev ps)"
    using Cons.IH by simp
  also have "\<dots> = (map_of d)(fst a \<mapsto> snd a) ++ map_of (rev ps)"
    by (simp add: map_of_dict_set)
  also have "\<dots> = map_of d ++ (map_of [(fst a, snd a)] ++ map_of (rev ps))"
    by (simp add: fun_eq_iff map_add_def split: option.splits)
  also have "\<dots> = map_of d ++ map_of (rev (a # ps))"
    by simp
  finally show ?case .
qed

lemma is_string_hashable: "list_all is_string xs \<Longrightarrow> list_all hashable xs"
proof (induction xs)
  case Nil
  show ?case by simp
next
  case (Cons a xs)
  then show ?case by (cases a) auto
qed

lemma merge_member_spec:
  assumes "plain_member r"
  shows "merge_member r m =
           Inr \<lparr>m_properties =
                  fold (\<lambda>kv acc. dict_set acc (fst kv) (snd kv)) (member_properties r) (m_properties m),
                m_required = m_required m @ member_required r,
                m_additional = (case member_additional r of None \<Rightarrow> m_additional m | Some a \<Rightarrow> Some a)\<rparr>"
proof (cases r)
  case (JObj kvs)
  have p: "dict_update (m_properties m) (case map_of kvs ''properties'' of None \<Rightarrow> JObj [] | Some p \<Rightarrow> p)
           = Inr (fold (\<lambda>kv acc. dict_set acc (fst kv) (snd kv)) (member_properties r) (m_properties m))"
    using assms by (auto simp: JObj split: option.splits json.splits)
  have q: "py_iter (case map_of kvs ''required'' of None \<Rightarrow> JArr [] | Some r \<Rightarrow> r)
           = Inr (member_required r)"
    using assms by (auto simp: JObj split: option.splits json.splits)
  show ?thesis using p q by (simp add: JObj)
qed simp_all

lemma allOf_additional_Cons:
  "allOf_additional (r # rs) =
     (case allOf_additional rs of None \<Rightarrow> member_additional r | Some a \<Rightarrow> Some a)"
proof (cases "filter (\<lambda>r. member_additional r \<noteq> None) rs")
  case Nil
  then show ?thesis by (auto simp: allOf_additional_def)
next
  case (Cons d ds)
  then have "d \<in> set (filter (\<lambda>r. member_additional r \<noteq> None) rs)" by simp
  have "last (d # ds) \<in> set (filter (\<lambda>r. member_additional r \<noteq> None) rs)"
    using Cons last_in_set [of "d # ds"] by simp
  then have "member_additional (last (d # ds)) \<noteq> None" by simp
  then show ?thesis using Cons by (auto simp: allOf_additional_def)
qed

lemma allOf_loop_spec:
  assumes "list_all2 (\<lambda>x r. f x = Inr r) ms rs" and "list_all plain_member rs"
  shows "\<exists>m'. allOf_loop f ms m = Inr m'
          \<and> map_of (m_properties m') = map_of (m_properties m) ++ allOf_properties rs
          \<and> m_required m' = m_required m @ concat (map member_required rs)
          \<and> m_additional m' = (case allOf_additional rs of None \<Rightarrow> m_additional m | Some a \<Rightarrow> Some a)"
  using assms
proof (induction ms rs arbitrary: m rule: list_all2_induct)
  case Nil
  show ?case by (simp add: allOf_properties_def allOf_additional_def)
next
  case (Cons x ms r rs)
  let ?m1 = "\<lparr>m_properties =
                 fold (\<lambda>kv acc. dict_set acc (fst kv) (snd kv)) (member_properties r) (m_properties m),
               m_required = m_required m @ member_required r,
               m_additional = (case member_additional r of None \<Rightarrow> m_additional m | Some a \<Rightarrow> Some a)\<rparr>"
  have pr: "plain_member r" and prs: "list_all plain_member rs" using Cons.prems by simp_all
  have step: "merge_member r m = Inr ?m1" by (rule merge_member_spec [OF pr])
  from Cons.IH [OF prs, of ?m1] obtain m' where
    l: "allOf_loop f ms ?m1 = Inr m'"
    and p: "map_of (m_properties m') = map_of (m_properties ?m1) ++ allOf_properties rs"
    and q: "m_required m' = m_required ?m1 @ concat (map member_required rs)"
    and a: "m_additional m' = (case allOf_additional rs of None \<Rightarrow> m_additional ?m1 | Some a \<Rightarrow> Some a)"
    by blast
  have "allOf_loop f (x # ms) m = Inr m'" using Cons.hyps(1) step l by simp
  moreover have "map_of (m_properties m') = map_of (m_properties m) ++ allOf_properties (r # rs)"
    using p by (simp add: map_of_fold_dict_set allOf_properties_def)
  moreover have "m_required m' = m_required m @ concat (map member_required (r # rs))"
    using q by simp
  moreover have "m_additional m' =
      (case allOf_additional (r # rs) of None \<Rightarrow> m_additional m | Some a \<Rightarrow> Some a)"
    using a by (simp add: allOf_additional_Cons split: option.splits)
  ultimately show ?case by blast
qed


lemma plain_member_required_strings:
  "list_all plain_member rs \<Longrightarrow> list_all is_string (concat (map member_required rs))"
proof (induction rs)
  case Nil
  show ?case by simp
next
  case (Cons r rs)
  have "list_all is_string (member_required r)"
    using Cons.prems by (cases r) (auto split: option.splits json.splits)
  with Cons show ?case by simp
qed

lemma distinct_strings:
  "sorted_wrt (\<lambda>a b. \<not> py_eq a b) ys \<Longrightarrow> list_all is_string ys \<Longrightarrow> distinct ys"
proof (induction ys)
  case Nil
  show ?case by simp
next
  case (Cons y ys)
  obtain s where y: "y = JStr s" using Cons.prems(2) by (cases y) auto
  have "y \<notin> set ys"
  proof
    assume "y \<in> set ys"
    then have "\<not> py_eq y y" using Cons.prems(1) by auto
    then show False by (simp add: y)
  qed
  with Cons show ?case by simp
qed

lemma set_listing_strings:
  assumes "set_listing f" and "list_all is_string xs"
  shows "set (f xs) = set xs \<and> distinct (f xs)"
proof -
  have h: "list_all hashable xs" using assms(2) by (rule is_string_hashable)
  from assms(1) h have sub: "set (f xs) \<subseteq> set xs"
    and cov: "\<forall>x\<in>set xs. \<exists>y\<in>set (f xs). py_eq x y"
    and sw: "sorted_wrt (\<lambda>a b. \<not> py_eq a b) (f xs)"
    by (auto simp: set_listing_def)
  have "set xs \<subseteq> set (f xs)"
  proof
    fix x assume x: "x \<in> set xs"
    then have "is_string x" using assms(2) by (simp add: list_all_iff)
    then obtain s where s: "x = JStr s" by (cases x) auto
    from cov x obtain y where "y \<in> set (f xs)" and "py_eq x y" by blast
    then show "x \<in> set (f xs)" by (simp add: s)
  qed
  moreover have "list_all is_string (f xs)"
    using sub assms(2) by (auto simp: list_all_iff)
  ultimately show ?thesis using sub sw distinct_strings by blast
qed

text \<open>
  C4. A fragment with an \<^verbatim>\<open>allOf\<close> list (and no \<^verbatim>\<open>$ref\<close>, which line 80 tests
  first) whose members resolve, each against the same root document and file path, to
  \<open>rs\<close> (schemas whose \<^verbatim>\<open>properties\<close> is an object and whose \<^verbatim>\<open>required\<close> is a list
  of names, where they have them) is resolved to one object: its \<^verbatim>\<open>properties\<close> are the union of those of
  \<open>rs\<close>, later entries replacing earlier ones of the same name; its \<^verbatim>\<open>required\<close> holds
  each required name of \<open>rs\<close> once, in some order; its \<^verbatim>\<open>additionalProperties\<close> is
  that of the last member that has one, and the key is absent when none has.
\<close>

theorem allOf_merges_members:
  assumes "map_of kvs ''$ref'' = None"
    and "map_of kvs ''allOf'' = Some (JArr members)"
    and "list_all2 (\<lambda>sub_schema r. resolve_refs E n sub_schema root_schema file_path = Inr r) members rs"
    and "list_all plain_member rs"
    and "set_listing (set_to_list E)"
  shows "\<exists>props names.
           resolve_refs E n (JObj kvs) root_schema file_path =
             Inr (JObj ([(''type'', JStr ''object''),
                         (''properties'', JObj props),
                         (''required'', JArr names)]
                        @ (case allOf_additional rs of
                             None \<Rightarrow> []
                           | Some a \<Rightarrow> [(''additionalProperties'', a)])))
           \<and> map_of props = allOf_properties rs
           \<and> set names = allOf_required rs
           \<and> distinct names"
proof -
  let ?m0 = "\<lparr>m_properties = [], m_required = [], m_additional = None\<rparr>"
  let ?f = "\<lambda>sub_schema. resolve_refs E n sub_schema root_schema file_path"
  from allOf_loop_spec [OF assms(3,4), of ?m0] obtain m' where
    l: "allOf_loop ?f members ?m0 = Inr m'"
    and p: "map_of (m_properties m') = allOf_properties rs"
    and q: "m_required m' = concat (map member_required rs)"
    and a: "m_additional m' = allOf_additional rs"
    by (auto split: option.splits)
  have strs: "list_all is_string (m_required m')"
    using plain_member_required_strings [OF assms(4)] q by simp
  then have hash: "list_all hashable (m_required m')" by (rule is_string_hashable)
  have ne: "kvs \<noteq> []" using assms(2) by auto
  have r: "resolve_refs E n (JObj kvs) root_schema file_path = finish_merged E m'"
    using assms(1,2) ne l by (subst resolve_refs.simps) simp
  have names: "set (set_to_list E (m_required m')) = allOf_required rs
               \<and> distinct (set_to_list E (m_required m'))"
    using set_listing_strings [OF assms(5) strs] q by (simp add: allOf_required_def)
  show ?thesis
    using r hash a p names by (auto simp: finish_merged_def)
qed

lemma py_eq_scalar_refl: "hashable x \<Longrightarrow> py_eq x x"
  by (cases x) auto

lemma py_eq_scalar_sym: "hashable a \<Longrightarrow> hashable x \<Longrightarrow> py_eq a x \<Longrightarrow> py_eq x a"
  by (cases a; cases x) (auto split: if_splits)

lemma py_eq_scalar_trans:
  "hashable x \<Longrightarrow> hashable a \<Longrightarrow> hashable y \<Longrightarrow> py_eq x y \<Longrightarrow> py_eq a y \<Longrightarrow> py_eq a x"
  by (cases x; cases a; cases y) (auto split: if_splits)

lemma py_dedup_subset: "set (py_dedup xs) \<subseteq> set xs"
  by (induction xs) auto

lemma py_dedup_covers:
  "list_all hashable xs \<Longrightarrow> x \<in> set xs \<Longrightarrow> \<exists>y\<in>set (py_dedup xs). py_eq x y"
proof (induction xs)
  case Nil
  then show ?case by simp
next
  case (Cons a xs)
  show ?case
  proof (cases "py_eq a x")
    case True
    have "hashable a" and "hashable x" using Cons.prems by (auto simp: list_all_iff)
    then have "py_eq x a" using True by (rule py_eq_scalar_sym)
    then show ?thesis by auto
  next
    case False
    then have "x \<noteq> a" using Cons.prems py_eq_scalar_refl [of a] by auto
    then have xin: "x \<in> set xs" using Cons.prems by simp
    then obtain y where y: "y \<in> set (py_dedup xs)" and e: "py_eq x y"
      using Cons by auto
    have hy: "hashable y" using y py_dedup_subset [of xs] Cons.prems(1) by (auto simp: list_all_iff)
    have hx: "hashable x" using xin Cons.prems(1) by (auto simp: list_all_iff)
    have ha: "hashable a" using Cons.prems(1) by simp
    have "\<not> py_eq a y" using py_eq_scalar_trans [OF hx ha hy e] False by blast
    then show ?thesis using y e by auto
  qed
qed

lemma py_dedup_separates: "sorted_wrt (\<lambda>a b. \<not> py_eq a b) (py_dedup xs)"
  by (induction xs) (auto simp: sorted_wrt_filter)

lemma py_dedup_listing: "set_listing py_dedup"
  unfolding set_listing_def
  using py_dedup_subset py_dedup_covers py_dedup_separates by blast

lemma example_member_resolutions:
  "resolve_refs example_env 3 (JObj [(''$ref'', JStr ''#/definitions/Shared'')]) example_common
     ''schemas/events.json'' = Inr example_shared"
  "resolve_refs example_env 3 example_member example_common ''schemas/events.json''
     = Inr example_member"
  "resolve_refs example_env 3 example_requirement example_common ''schemas/events.json''
     = Inr example_requirement"
  by code_simp+

theorem allOf_merges_members_witness:
  "\<exists>props names.
     resolve_refs example_env 3
       (JObj [(''allOf'', JArr [JObj [(''$ref'', JStr ''#/definitions/Shared'')],
                                example_member, example_requirement])])
       example_common ''schemas/events.json''
     = Inr (JObj [(''type'', JStr ''object''),
                  (''properties'', JObj props),
                  (''required'', JArr names),
                  (''additionalProperties'', JBool False)])
     \<and> map_of props ''x'' = Some (JObj [(''type'', JStr ''integer'')])
     \<and> map_of props ''y'' = Some (JObj [(''type'', JStr ''string'')])
     \<and> set names = {JStr ''x'', JStr ''y''}
     \<and> distinct names"
proof -
  let ?members = "[JObj [(''$ref'', JStr ''#/definitions/Shared'')], example_member, example_requirement]"
  let ?rs = "[example_shared, example_member, example_requirement]"
  have a: "map_of [(''allOf'', JArr ?members)] ''$ref'' = None" by simp
  have b: "map_of [(''allOf'', JArr ?members)] ''allOf'' = Some (JArr ?members)" by simp
  have c: "list_all2 (\<lambda>sub_schema r. resolve_refs example_env 3 sub_schema example_common
                                     ''schemas/events.json'' = Inr r) ?members ?rs"
    using example_member_resolutions by simp
  have d: "list_all plain_member ?rs"
    by (simp add: example_shared_def example_member_def example_requirement_def)
  have e: "set_listing (set_to_list example_env)"
    by (simp add: example_env_def py_dedup_listing)
  have ap: "allOf_additional ?rs = Some (JBool False)"
    by (simp add: allOf_additional_def example_shared_def example_member_def example_requirement_def)
  have pr: "allOf_properties ?rs ''x'' = Some (JObj [(''type'', JStr ''integer'')])"
           "allOf_properties ?rs ''y'' = Some (JObj [(''type'', JStr ''string'')])"
    by (simp_all add: allOf_properties_def example_shared_def example_member_def example_requirement_def)
  have rq: "allOf_required ?rs = {JStr ''x'', JStr ''y''}"
    by (auto simp: allOf_required_def example_shared_def example_member_def example_requirement_def)
  from allOf_merges_members [OF a b c d e] obtain props names where
    "resolve_refs example_env 3 (JObj [(''allOf'', JArr ?members)]) example_common ''schemas/events.json''
       = Inr (JObj ([(''type'', JStr ''object''), (''properties'', JObj props), (''required'', JArr names)]
                    @ (case allOf_additional ?rs of None \<Rightarrow> [] | Some a \<Rightarrow> [(''additionalProperties'', a)])))"
    and "map_of props = allOf_properties ?rs"
    and "set names = allOf_required ?rs"
    and "distinct names"
    by blast
  then show ?thesis using ap pr rq by auto
qed

section \<open>No reference is left after resolution\<close>

lemma resolved_ok_map_of:
  "resolved_ok (JObj kvs) \<Longrightarrow> map_of kvs k = Some v \<Longrightarrow> resolved_ok v"
  by (auto simp: resolved_ok_def list_all_iff dest!: map_of_SomeD)

lemma well_formed_map_of:
  "well_formed (JObj kvs) \<Longrightarrow> map_of kvs k = Some v \<Longrightarrow> well_formed v"
  by (auto simp: list_all_iff dest!: map_of_SomeD)

lemma well_formed_walk_internal:
  "well_formed doc \<Longrightarrow> walk_internal doc ps = Inr r \<Longrightarrow> well_formed r"
proof (induction ps arbitrary: doc)
  case Nil
  then show ?case by simp
next
  case (Cons part ps)
  then obtain kvs where doc: "doc = JObj kvs" by (cases doc) auto
  show ?case
  proof (cases "map_of kvs part")
    case None
    then show ?thesis using Cons.prems by (auto simp: doc)
  next
    case (Some v)
    then have "well_formed v" using Cons.prems(1) doc well_formed_map_of by blast
    then show ?thesis using Cons.prems(2) Cons.IH [of v] Some
      by (auto simp: doc split: if_splits)
  qed
qed

lemma well_formed_walk_external:
  "well_formed doc \<Longrightarrow> walk_external doc ps = Inr r \<Longrightarrow> well_formed r"
proof (induction ps arbitrary: doc)
  case Nil
  then show ?case by simp
next
  case (Cons part ps)
  then obtain kvs where doc: "doc = JObj kvs" by (cases doc) auto
  show ?case
  proof (cases "map_of kvs part")
    case None
    then show ?thesis using Cons.prems(2) Cons.IH [of JNull] by (auto simp: doc)
  next
    case (Some v)
    then have "well_formed v" using Cons.prems(1) doc well_formed_map_of by blast
    then show ?thesis using Cons.prems(2) Cons.IH [of v] Some by (auto simp: doc)
  qed
qed

lemma well_formed_py_iter:
  "well_formed v \<Longrightarrow> py_iter v = Inr xs \<Longrightarrow> x \<in> set xs \<Longrightarrow> well_formed x"
  by (cases v) (auto simp: list_all_iff)

lemma map_result_rel:
  "map_result f xs = Inr ys \<Longrightarrow> list_all2 (\<lambda>x y. f x = Inr y) xs ys"
  by (induction xs arbitrary: ys) (auto split: sum.splits)

lemma map_values_rel:
  "map_values f kvs = Inr kws
   \<Longrightarrow> list_all2 (\<lambda>kv kw. fst kw = fst kv \<and> f (snd kv) = Inr (snd kw)) kvs kws"
proof (induction kvs arbitrary: kws)
  case Nil
  then show ?case by simp
next
  case (Cons a kvs)
  obtain k v where a: "a = (k, v)" by (cases a)
  from Cons.prems obtain w kws' where "f v = Inr w" and "map_values f kvs = Inr kws'"
    and "kws = (k, w) # kws'"
    by (auto simp: a split: sum.splits)
  with Cons.IH [of kws'] show ?case by (simp add: a)
qed

lemma rel_map_of_None:
  "list_all2 (\<lambda>kv kw. fst kw = fst kv \<and> f (snd kv) = Inr (snd kw)) kvs kws
   \<Longrightarrow> (map_of kws k = None) = (map_of kvs k = None)"
  by (induction kvs kws rule: list_all2_induct) auto

lemma resolve_plain_object:
  assumes "plain_object v" and "resolve_refs E n v doc file_path = Inr w"
  shows "plain_object w"
proof -
  obtain ps where v: "v = JObj ps" and r: "map_of ps ''$ref'' = None"
    and a: "map_of ps ''allOf'' = None"
    using assms(1) by (cases v) auto
  show ?thesis
  proof (cases "ps = []")
    case True
    then show ?thesis using assms(2) by (auto simp: resolve_falsy v)
  next
    case False
    from assms(2) r a False obtain pws where
      mv: "map_values (\<lambda>v. resolve_refs E n v doc file_path) ps = Inr pws"
      and w: "w = JObj pws"
      unfolding v by (subst (asm) resolve_refs.simps) (auto split: sum.splits)
    from map_values_rel [OF mv] r a show ?thesis
      by (simp add: w rel_map_of_None)
  qed
qed

lemma resolve_list:
  "xs \<noteq> [] \<Longrightarrow>
   resolve_refs E n (JArr xs) doc file_path =
     (case map_result (\<lambda>item. resolve_refs E n item doc file_path) xs of
        Inl e \<Rightarrow> Inl e | Inr ys \<Rightarrow> Inr (JArr ys))"
  by (subst resolve_refs.simps) simp

lemma resolve_dict:
  "kvs \<noteq> [] \<Longrightarrow> map_of kvs ''$ref'' = None \<Longrightarrow> map_of kvs ''allOf'' = None \<Longrightarrow>
   resolve_refs E n (JObj kvs) doc file_path =
     (case map_values (\<lambda>v. resolve_refs E n v doc file_path) kvs of
        Inl e \<Rightarrow> Inl e | Inr kws \<Rightarrow> Inr (JObj kws))"
  by (subst resolve_refs.simps) simp

lemma resolve_allOf:
  "map_of kvs ''$ref'' = None \<Longrightarrow> map_of kvs ''allOf'' = Some members \<Longrightarrow>
   resolve_refs E n (JObj kvs) doc file_path =
     (case py_iter members of
        Inl e \<Rightarrow> Inl e
      | Inr subs \<Rightarrow>
          (case allOf_loop (\<lambda>sub_schema. resolve_refs E n sub_schema doc file_path) subs
                  \<lparr>m_properties = [], m_required = [], m_additional = None\<rparr> of
             Inl e \<Rightarrow> Inl e
           | Inr m \<Rightarrow> finish_merged E m))"
  by (subst resolve_refs.simps) auto

lemma resolve_internal:
  "map_of kvs ''$ref'' = Some (JStr rr) \<Longrightarrow> startswith rr ''#/'' \<Longrightarrow>
   resolve_refs E n (JObj kvs) doc file_path =
     (case walk_internal doc (py_split CHR ''/'' (drop 2 rr)) of
        Inl e \<Rightarrow> Inl e
      | Inr resolved \<Rightarrow>
          (case n of 0 \<Rightarrow> Inl RecursionError
           | Suc n' \<Rightarrow> resolve_refs E n' resolved doc file_path))"
  by (subst resolve_refs.simps) auto

lemma resolve_external:
  "map_of kvs ''$ref'' = Some (JStr rr) \<Longrightarrow> \<not> startswith rr ''#/'' \<Longrightarrow> startswith rr ''./'' \<Longrightarrow>
   resolve_refs E n (JObj kvs) doc file_path =
     (case read_json E (sibling_path E file_path (hd (py_split CHR ''#'' rr))) of
        None \<Rightarrow> Inl ReadError
      | Some ref_content \<Rightarrow>
          if length (py_split CHR ''#'' rr) > 1 \<and> py_split CHR ''#'' rr ! 1 \<noteq> [] then
            (case walk_external ref_content
                    (py_split CHR ''/'' (drop 1 (py_split CHR ''#'' rr ! 1))) of
               Inl e \<Rightarrow> Inl e
             | Inr resolved \<Rightarrow>
                 (case n of 0 \<Rightarrow> Inl RecursionError
                  | Suc n' \<Rightarrow>
                      resolve_refs E n' resolved ref_content
                        (sibling_path E file_path (hd (py_split CHR ''#'' rr)))))
          else Inr ref_content)"
  by (subst resolve_refs.simps) (auto simp: Let_def)

lemma resolve_bad_ref:
  "map_of kvs ''$ref'' = Some ref \<Longrightarrow> \<forall>rr. ref \<noteq> JStr rr \<Longrightarrow>
   resolve_refs E n (JObj kvs) doc file_path = Inl AttributeError"
  by (subst resolve_refs.simps) (cases ref; auto)

lemma resolve_scalar:
  "hashable s \<Longrightarrow> resolve_refs E n s doc file_path = Inr s"
  by (subst resolve_refs.simps) (cases s; simp)

lemma hashable_ok: "hashable x \<Longrightarrow> resolved_ok x"
  by (cases x) (auto simp: resolved_ok_def)

lemma falsy_ok: "\<not> truthy s \<Longrightarrow> resolved_ok s"
  by (cases s) (auto simp: resolved_ok_def)

lemma dict_set_entries:
  "list_all Q d \<Longrightarrow> Q (k, v) \<Longrightarrow> list_all Q (dict_set d k v)"
  by (induction d) auto

lemma fold_dict_set_entries:
  "list_all Q d \<Longrightarrow> list_all Q ps
   \<Longrightarrow> list_all Q (fold (\<lambda>kv acc. dict_set acc (fst kv) (snd kv)) ps d)"
  by (induction ps arbitrary: d) (auto simp: dict_set_entries)

lemma no_key_entry: "map_of ps k = None \<Longrightarrow> kv \<in> set ps \<Longrightarrow> fst kv \<noteq> k"
  by (force simp: map_of_eq_None_iff)

lemma entries_of_ok_object:
  assumes "resolved_ok (JObj ps)"
  shows "list_all entry_ok ps"
proof -
  have "entry_ok kv" if kv: "kv \<in> set ps" for kv
  proof -
    have n: "map_of ps ''$ref'' = None" "map_of ps ''allOf'' = None"
      using assms by (auto simp: resolved_ok_def)
    have "fst kv \<noteq> ''$ref''" and "fst kv \<noteq> ''allOf''"
      using no_key_entry [OF n(1) kv] no_key_entry [OF n(2) kv] by simp_all
    moreover have "resolved_ok (snd kv)"
      using assms kv by (auto simp: resolved_ok_def list_all_iff)
    moreover have "fst kv = ''properties'' \<longrightarrow> plain_object (snd kv)"
      using assms kv by (auto simp: resolved_ok_def list_all_iff)
    ultimately show ?thesis by (simp add: entry_ok_def)
  qed
  then show ?thesis by (simp add: list_all_iff)
qed

lemma ok_object_of_entries:
  assumes "list_all entry_ok ps"
  shows "resolved_ok (JObj ps)" and "plain_object (JObj ps)"
proof -
  have "''$ref'' \<notin> fst ` set ps" and "''allOf'' \<notin> fst ` set ps"
    using assms by (auto simp: list_all_iff entry_ok_def)
  then have n: "map_of ps ''$ref'' = None" "map_of ps ''allOf'' = None"
    by (simp_all add: map_of_eq_None_iff)
  then show "plain_object (JObj ps)" by simp
  show "resolved_ok (JObj ps)"
    using assms n by (auto simp: list_all_iff entry_ok_def resolved_ok_def)
qed

lemma merge_member_ok:
  assumes "resolved_ok r" and "merged_ok m" and "merge_member r m = Inr m'"
  shows "merged_ok m'"
proof (cases r)
  case (JObj kvs)
  let ?p = "case map_of kvs ''properties'' of None \<Rightarrow> JObj [] | Some p \<Rightarrow> p"
  from assms(3) obtain props req where
    du: "dict_update (m_properties m) ?p = Inr props"
    and m': "m' = \<lparr>m_properties = props, m_required = m_required m @ req,
                     m_additional = (case map_of kvs ''additionalProperties'' of
                                       None \<Rightarrow> m_additional m | Some a \<Rightarrow> Some a)\<rparr>"
    by (auto simp: JObj split: sum.splits)
  have "\<exists>ps. ?p = JObj ps \<and> list_all entry_ok ps"
  proof (cases "map_of kvs ''properties''")
    case None
    then show ?thesis by simp
  next
    case (Some p)
    then have "(''properties'', p) \<in> set kvs" by (rule map_of_SomeD)
    then have "plain_object p"
      using assms(1) by (auto simp: JObj resolved_ok_def list_all_iff)
    then obtain ps where p: "p = JObj ps" by (cases p) auto
    have "resolved_ok (JObj ps)"
      using assms(1) Some resolved_ok_map_of [of kvs "''properties''" p] by (simp add: JObj p)
    then show ?thesis using Some p entries_of_ok_object by simp
  qed
  then obtain ps where ps: "?p = JObj ps" and eo: "list_all entry_ok ps" by blast
  have props: "props = fold (\<lambda>kv acc. dict_set acc (fst kv) (snd kv)) ps (m_properties m)"
    using du by (simp add: ps)
  have "list_all entry_ok props"
    unfolding props using assms(2) eo by (simp add: merged_ok_def fold_dict_set_entries)
  moreover have "case m_additional m' of None \<Rightarrow> True | Some a \<Rightarrow> resolved_ok a"
  proof (cases "map_of kvs ''additionalProperties''")
    case None
    then show ?thesis using assms(2) by (simp add: m' merged_ok_def)
  next
    case (Some a)
    then have "resolved_ok a" using assms(1) resolved_ok_map_of JObj by blast
    then show ?thesis using Some by (simp add: m')
  qed
  ultimately show ?thesis by (simp add: merged_ok_def m')
qed (use assms in auto)

lemma allOf_loop_ok:
  "\<forall>x\<in>set subs. \<forall>r. f x = Inr r \<longrightarrow> resolved_ok r \<Longrightarrow> merged_ok m
   \<Longrightarrow> allOf_loop f subs m = Inr m' \<Longrightarrow> merged_ok m'"
proof (induction subs arbitrary: m)
  case Nil
  then show ?case by simp
next
  case (Cons x subs)
  from Cons.prems(3) obtain r m1 where r: "f x = Inr r" and m1: "merge_member r m = Inr m1"
    and l: "allOf_loop f subs m1 = Inr m'"
    by (auto split: sum.splits)
  have "resolved_ok r" using Cons.prems(1) r by simp
  then have "merged_ok m1" using Cons.prems(2) m1 by (rule merge_member_ok)
  moreover have "\<forall>x\<in>set subs. \<forall>r. f x = Inr r \<longrightarrow> resolved_ok r"
    using Cons.prems(1) by simp
  ultimately show ?case using l Cons.IH [of m1] by blast
qed

lemma finish_merged_ok:
  assumes "set_listing (set_to_list E)" and "merged_ok m" and "finish_merged E m = Inr r"
  shows "resolved_ok r"
proof -
  have h: "list_all hashable (m_required m)"
    using assms(3) by (auto simp: finish_merged_def split: if_splits)
  let ?names = "set_to_list E (m_required m)"
  have "set ?names \<subseteq> set (m_required m)"
    using assms(1) h by (simp add: set_listing_def)
  then have names: "list_all resolved_ok ?names"
    using h hashable_ok by (auto simp: list_all_iff)
  have eo: "list_all entry_ok (m_properties m)" using assms(2) by (simp add: merged_ok_def)
  note po = ok_object_of_entries [OF eo]
  have r: "r = JObj ([(''type'', JStr ''object''), (''properties'', JObj (m_properties m)),
                      (''required'', JArr ?names)]
                     @ (case m_additional m of None \<Rightarrow> [] | Some a \<Rightarrow> [(''additionalProperties'', a)]))"
    using assms(3) h by (simp add: finish_merged_def)
  have nrf: "ref_free (JArr ?names) \<and> ref_free (JStr ''object'')"
    and nwf: "well_formed (JArr ?names) \<and> well_formed (JStr ''object'')"
    using names by (auto simp: list_all_iff resolved_ok_def)
  have props_rf: "ref_free (JObj (m_properties m))" and props_wf: "well_formed (JObj (m_properties m))"
    using po(1) by (simp_all add: resolved_ok_def)
  show ?thesis
  proof (cases "m_additional m")
    case None
    then show ?thesis
      using po(2) props_rf props_wf nrf nwf by (simp add: r resolved_ok_def del: ref_free.simps well_formed.simps plain_object.simps
                                          add: ref_free.simps(1) [of "_ # _"] well_formed.simps(1) [of "_ # _"])
  next
    case (Some a)
    then have "resolved_ok a" using assms(2) by (simp add: merged_ok_def)
    then show ?thesis
      using Some po(2) props_rf props_wf nrf nwf by (simp add: r resolved_ok_def del: ref_free.simps well_formed.simps plain_object.simps
                                          add: ref_free.simps(1) [of "_ # _"] well_formed.simps(1) [of "_ # _"])
  qed
qed


lemma rel_entries:
  "list_all2 (\<lambda>kv kw. fst kw = fst kv \<and> f (snd kv) = Inr (snd kw)) kvs kws
   \<Longrightarrow> kw \<in> set kws \<Longrightarrow> \<exists>kv\<in>set kvs. fst kw = fst kv \<and> f (snd kv) = Inr (snd kw)"
  by (induction kvs kws rule: list_all2_induct) auto

lemma rel_items:
  "list_all2 (\<lambda>x y. f x = Inr y) xs ys \<Longrightarrow> y \<in> set ys \<Longrightarrow> \<exists>x\<in>set xs. f x = Inr y"
  by (induction xs ys rule: list_all2_induct) auto

lemma resolve_refs_ok:
  "(\<forall>p c. read_json E p = Some c \<longrightarrow> well_formed c) \<Longrightarrow> set_listing (set_to_list E)
   \<Longrightarrow> well_formed schema \<Longrightarrow> well_formed doc
   \<Longrightarrow> resolve_refs E n schema doc file_path = Inr r \<Longrightarrow> resolved_ok r"
proof (induction E n schema doc file_path arbitrary: r rule: resolve_refs.induct)
  case (1 E n schema doc file_path)
  note files = "1.prems"(1) and listing = "1.prems"(2) and wfs = "1.prems"(3)
    and wfd = "1.prems"(4) and res = "1.prems"(5)
  show ?case
  proof (cases "truthy schema")
    case False
    then have "r = schema" using res by (simp add: resolve_falsy)
    then show ?thesis using False falsy_ok by simp
  next
    case True
    then have nn: "\<not> \<not> truthy schema" by simp
    show ?thesis
    proof (cases schema)
      case (JArr xs)
      have ne: "xs \<noteq> []" using True JArr by simp
      from res obtain ys where
        mr: "map_result (\<lambda>item. resolve_refs E n item doc file_path) xs = Inr ys"
        and r: "r = JArr ys"
        by (auto simp: JArr resolve_list [OF ne] split: sum.splits)
      have "resolved_ok y" if y: "y \<in> set ys" for y
      proof -
        from rel_items [OF map_result_rel [OF mr] y] obtain x where
          xin: "x \<in> set xs" and eq: "resolve_refs E n x doc file_path = Inr y" by blast
        have wfx: "well_formed x" using wfs xin by (simp add: JArr list_all_iff)
        show ?thesis by (rule "1.IH"(1) [OF nn JArr xin files listing wfx wfd eq])
      qed
      then show ?thesis by (simp add: r resolved_ok_def list_all_iff)
    next
      case (JObj kvs)
      have ne: "kvs \<noteq> []" using True JObj by simp
      show ?thesis
      proof (cases "map_of kvs ''$ref''")
        case None
        note noref = None
        show ?thesis
        proof (cases "map_of kvs ''allOf''")
          case None
          from res obtain kws where
            mv: "map_values (\<lambda>v. resolve_refs E n v doc file_path) kvs = Inr kws"
            and r: "r = JObj kws"
            by (auto simp: JObj resolve_dict [OF ne noref None] split: sum.splits)
          note rel = map_values_rel [OF mv]
          have keys: "map_of kws ''$ref'' = None" "map_of kws ''allOf'' = None"
            using rel noref None by (simp_all add: rel_map_of_None)
          have ent: "resolved_ok (snd kw) \<and> (fst kw = ''properties'' \<longrightarrow> plain_object (snd kw))"
            if kw: "kw \<in> set kws" for kw
          proof -
            from rel_entries [OF rel kw] obtain kv where
              kvin: "kv \<in> set kvs" and k: "fst kw = fst kv"
              and eq: "resolve_refs E n (snd kv) doc file_path = Inr (snd kw)" by blast
            have kvin': "(fst kv, snd kv) \<in> set kvs" using kvin by simp
            have wfv: "well_formed (snd kv)" using wfs kvin by (simp add: JObj list_all_iff)
            have ok: "resolved_ok (snd kw)"
              by (rule "1.IH"(2) [OF nn JObj noref None kvin' files listing wfv wfd eq])
            have "plain_object (snd kw)" if "fst kw = ''properties''"
            proof -
              have "plain_object (snd kv)" using wfs kvin that k by (simp add: JObj list_all_iff)
              then show ?thesis using eq by (rule resolve_plain_object)
            qed
            with ok show ?thesis by simp
          qed
          show ?thesis using keys ent by (simp add: r resolved_ok_def list_all_iff)
        next
          case (Some members)
          from res obtain subs m where
            it: "py_iter members = Inr subs"
            and lp: "allOf_loop (\<lambda>sub_schema. resolve_refs E n sub_schema doc file_path) subs
                       \<lparr>m_properties = [], m_required = [], m_additional = None\<rparr> = Inr m"
            and fin: "finish_merged E m = Inr r"
            by (auto simp: JObj resolve_allOf [OF noref Some] split: sum.splits)
          have wfm: "well_formed members"
            using wfs Some well_formed_map_of unfolding JObj by blast
          have subs_ok: "\<forall>x\<in>set subs. \<forall>rr. resolve_refs E n x doc file_path = Inr rr
                          \<longrightarrow> resolved_ok rr"
          proof (intro ballI allI impI)
            fix x rr
            assume xin: "x \<in> set subs" and eq: "resolve_refs E n x doc file_path = Inr rr"
            have wfx: "well_formed x" using wfm it xin by (rule well_formed_py_iter)
            show "resolved_ok rr"
              by (rule "1.IH"(3) [OF nn JObj noref Some it xin files listing wfx wfd eq])
          qed
          have m0: "merged_ok \<lparr>m_properties = [], m_required = [], m_additional = None\<rparr>"
            by (simp add: merged_ok_def)
          have "merged_ok m" using subs_ok m0 lp by (rule allOf_loop_ok)
          with listing show ?thesis using fin by (rule finish_merged_ok)
        qed
      next
        case (Some ref)
        show ?thesis
        proof (cases "\<exists>rr. ref = JStr rr")
          case False
          then show ?thesis using res resolve_bad_ref [OF Some] by (simp add: JObj)
        next
          case True
          then obtain rr where ref: "ref = JStr rr" by blast
          have isref: "map_of kvs ''$ref'' = Some (JStr rr)" using Some ref by simp
          have sup: "supported_ref rr" using wfs isref by (simp add: JObj)
          show ?thesis
          proof (cases "startswith rr ''#/''")
            case True
            from res obtain resolved n' where
              wk: "walk_internal doc (py_split CHR ''/'' (drop 2 rr)) = Inr resolved"
              and n: "n = Suc n'"
              and eq: "resolve_refs E n' resolved doc file_path = Inr r"
              by (auto simp: JObj resolve_internal [OF isref True] split: sum.splits nat.splits)
            have wfr: "well_formed resolved" using wfd wk by (rule well_formed_walk_internal)
            show ?thesis
              by (rule "1.IH"(4) [OF nn JObj Some ref True wk n files listing wfr wfd eq])
          next
            case False
            let ?parts = "py_split CHR ''#'' rr"
            let ?file = "sibling_path E file_path (hd ?parts)"
            have ext: "startswith rr ''./''" and frag: "1 < length ?parts \<and> ?parts ! 1 \<noteq> []"
              using sup False by (auto simp: supported_ref_def)
            from res frag obtain ref_content resolved n' where
              rj: "read_json E ?file = Some ref_content"
              and wk: "walk_external ref_content (py_split CHR ''/'' (drop 1 (?parts ! 1))) = Inr resolved"
              and n: "n = Suc n'"
              and eq: "resolve_refs E n' resolved ref_content ?file = Inr r"
              by (auto simp: JObj resolve_external [OF isref False ext]
                       split: sum.splits nat.splits option.splits)
            have wfc: "well_formed ref_content" using files rj by blast
            have wfr: "well_formed resolved" using wfc wk by (rule well_formed_walk_external)
            show ?thesis
              by (rule "1.IH"(5) [OF nn JObj Some ref False ext refl refl rj frag wk n
                                     files listing wfr wfc eq])
          qed
        qed
      qed
    qed (use res hashable_ok in \<open>auto simp: resolve_scalar\<close>)
  qed
qed


lemma make_event_ok:
  assumes "\<forall>p c. read_json E p = Some c \<longrightarrow> well_formed c" and "set_listing (set_to_list E)"
    and "well_formed content" and "well_formed (snd item)"
    and "make_event E n content file_path item = Inr ev"
  shows "ref_free (event_schema ev)"
proof -
  from assms(5) obtain resolved where
    eq: "resolve_refs E n (snd item) content file_path = Inr resolved"
    and ev: "event_schema ev = resolved"
    by (auto simp: make_event_def split: sum.splits)
  have "resolved_ok resolved" by (rule resolve_refs_ok [OF assms(1,2,4,3) eq])
  then show ?thesis by (simp add: ev resolved_ok_def)
qed

lemma load_file_ok:
  assumes "\<forall>p c. read_json E p = Some c \<longrightarrow> well_formed c" and "set_listing (set_to_list E)"
    and "load_file E n file_path = Inr evs" and "ev \<in> set evs"
  shows "ref_free (event_schema ev)"
proof -
  from assms(3) obtain content where rj: "read_json E file_path = Some content"
    by (auto simp: load_file_def split: option.splits)
  have wfc: "well_formed content" using assms(1) rj by blast
  from assms(3,4) rj obtain events items where
    gi: "py_getitem content ''events'' = Inr events" and ev: "events = JObj items"
    and mr: "map_result (make_event E n content file_path) items = Inr evs"
    by (auto simp: load_file_def split: sum.splits if_splits json.splits)
  from gi obtain ckvs where c: "content = JObj ckvs" and e: "map_of ckvs ''events'' = Some events"
    by (cases content) (auto split: option.splits)
  have wfe: "well_formed (JObj items)"
    using wfc e well_formed_map_of unfolding c ev by blast
  from rel_items [OF map_result_rel [OF mr] assms(4)] obtain item where
    iin: "item \<in> set items" and me: "make_event E n content file_path item = Inr ev" by blast
  have "well_formed (snd item)" using wfe iin by (simp add: list_all_iff)
  then show ?thesis using me by (rule make_event_ok [OF assms(1,2) wfc])
qed

lemma load_schemas_ok:
  assumes "\<forall>p c. read_json E p = Some c \<longrightarrow> well_formed c" and "set_listing (set_to_list E)"
    and "load_schemas E n files = Inr evs" and "ev \<in> set evs"
  shows "ref_free (event_schema ev)"
proof -
  from assms(3) obtain per_file where
    mr: "map_result (load_file E n) (sort files) = Inr per_file"
    and evs: "evs = rev (sort_key event_name (rev (concat per_file)))"
    by (auto simp: load_schemas_def split: sum.splits)
  from assms(4) obtain part where part: "part \<in> set per_file" and evin: "ev \<in> set part"
    by (auto simp: evs)
  from rel_items [OF map_result_rel [OF mr] part] obtain file_path where
    "load_file E n file_path = Inr part" by blast
  then show ?thesis using evin by (rule load_file_ok [OF assms(1,2)])
qed

text \<open>
  C1, as the code has it. When the schema, its document and every file that can be read
  are well formed (each \<^verbatim>\<open>$ref\<close> is \<^verbatim>\<open>#/...\<close> or \<^verbatim>\<open>./file#/...\<close> with a pointer,
  each \<^verbatim>\<open>properties\<close> is an object of sub-schemas), whatever \<^verbatim>\<open>resolve_refs\<close> returns
  has no \<^verbatim>\<open>$ref\<close> and no \<^verbatim>\<open>allOf\<close> key left, through internal, external and chained
  references and through \<^verbatim>\<open>allOf\<close>; and so has the schema of every event that
  \<^verbatim>\<open>load_schemas\<close> returns.
\<close>

theorem resolved_schemas_are_reference_free:
  assumes "\<forall>p c. read_json E p = Some c \<longrightarrow> well_formed c"
    and "set_listing (set_to_list E)"
  shows "(well_formed schema \<longrightarrow> well_formed doc
            \<longrightarrow> resolve_refs E n schema doc file_path = Inr r \<longrightarrow> ref_free r)
         \<and> (load_schemas E n files = Inr evs \<longrightarrow> (\<forall>ev\<in>set evs. ref_free (event_schema ev)))"
proof (intro conjI impI ballI)
  assume "well_formed schema" and "well_formed doc"
    and "resolve_refs E n schema doc file_path = Inr r"
  then have "resolved_ok r" by (rule resolve_refs_ok [OF assms])
  then show "ref_free r" by (simp add: resolved_ok_def)
next
  fix ev
  assume "load_schemas E n files = Inr evs" and "ev \<in> set evs"
  then show "ref_free (event_schema ev)" by (rule load_schemas_ok [OF assms])
qed

lemma example_order_resolution:
  "resolve_refs example_env 5 example_order example_common ''schemas/events.json''
   = Inr example_order_resolved"
  by code_simp

lemma example_env_files: "\<forall>p c. read_json example_env p = Some c \<longrightarrow> well_formed c"
  by (auto simp: example_env_def example_common_def supported_ref_def split: if_splits)

lemma example_files_files: "\<forall>p c. read_json example_files p = Some c \<longrightarrow> well_formed c"
  by (auto simp: example_files_def split: if_splits)

theorem resolved_schemas_are_reference_free_witness:
  "resolve_refs example_env 5 example_order example_common ''schemas/events.json''
     = Inr example_order_resolved
   \<and> ref_free example_order_resolved
   \<and> ref_free (JObj [(''type'', JStr ''object'')])"
proof -
  have l1: "set_listing (set_to_list example_env)"
    by (simp add: example_env_def py_dedup_listing)
  have l2: "set_listing (set_to_list example_files)"
    by (simp add: example_files_def py_dedup_listing)
  have w1: "well_formed example_order"
    by (simp add: example_order_def example_member_def supported_ref_def startswith_def)
  have w2: "well_formed example_common"
    by (simp add: example_common_def)
  have a: "ref_free example_order_resolved"
    using resolved_schemas_are_reference_free [OF example_env_files l1,
            of example_order example_common 5 "''schemas/events.json''" example_order_resolved]
      w1 w2 example_order_resolution
    by blast
  have b: "\<forall>ev\<in>set [\<lparr>event_name = ''beta_event'', type_name = ''BetaEventProperties'',
                          event_schema = JObj [(''type'', JStr ''object'')],
                          event_properties = JObj [], event_required = JArr []\<rparr>,
                        \<lparr>event_name = ''alpha_event'', type_name = ''AlphaEventProperties'',
                          event_schema = JObj [(''type'', JStr ''object'')],
                          event_properties = JObj [], event_required = JArr []\<rparr>].
             ref_free (event_schema ev)"
    using resolved_schemas_are_reference_free [OF example_files_files l2,
            of _ _ 10 _ _ "[''schemas/b.schema.json'', ''schemas/a.schema.json'']"]
      example_load
    by blast
  show ?thesis using a b example_order_resolution by simp
qed

text \<open>C1, as stated, fails: a property whose \<^verbatim>\<open>$ref\<close> has the scheme \<^verbatim>\<open>https:\<close> is
  still there, \<^verbatim>\<open>$ref\<close> key and all, in the schema that is returned.\<close>

theorem unsupported_ref_survives_counterexample:
  "resolve_refs example_env 1000
     (JObj [(''type'', JStr ''object''),
            (''properties'',
             JObj [(''address'', JObj [(''$ref'', JStr ''https://example.com/address.json'')])])])
     example_common ''schemas/events.json''
   = Inr (JObj [(''type'', JStr ''object''),
                (''properties'',
                 JObj [(''address'', JObj [(''$ref'', JStr ''https://example.com/address.json'')])])])
   \<and> \<not> ref_free
         (JObj [(''type'', JStr ''object''),
                (''properties'',
                 JObj [(''address'', JObj [(''$ref'', JStr ''https://example.com/address.json'')])])])"
  by code_simp

section \<open>Reference cycles\<close>


















text \<open>With other keys beside the cycle the exception may be theirs: here the file of
  the first property cannot be read, before the cycle of the second is reached.\<close>

lemma cycle_behind_unreadable_file:
  "resolve_refs example_env 1000
     (JObj [(''first'', JObj [(''$ref'', JStr ''./missing.json#/definitions/X'')]),
            (''second'', JObj [(''$ref'', JStr ''#/definitions/A'')])])
     example_cyclic ''schemas/events.json''
   = Inl ReadError"
  by code_simp


end
